theory Spec2Isabelle
  imports Main
begin

section \<open>Python strings\<close>

text \<open>
  A Python \<open>str\<close> is a sequence of Unicode code points, and \<open>len\<close>, \<open>ljust\<close> and the
  regular expressions of \<open>renderer.py\<close> count code points. A string is therefore a list of
  code points (integers); \<open>ustr\<close> reads an ASCII literal.
\<close>

type_synonym ustring = "int list"

definition ustr :: "string \<Rightarrow> ustring" where
  "ustr s = map of_char s"

text \<open>
  \<open>str.isspace\<close> of one code point, which is also the class \<open>\s\<close> of \<open>re\<close> on
  \<open>str\<close> patterns: TAB..CR, FS..US, SPACE, NEL, NBSP, and the Unicode space separators.
\<close>

definition isspace :: "int \<Rightarrow> bool" where
  "isspace c \<longleftrightarrow>
     (9 \<le> c \<and> c \<le> 13) \<or> (28 \<le> c \<and> c \<le> 32) \<or> c = 133 \<or> c = 160 \<or> c = 5760 \<or>
     (8192 \<le> c \<and> c \<le> 8202) \<or> c = 8232 \<or> c = 8233 \<or> c = 8239 \<or> c = 8287 \<or> c = 12288"

text \<open>\<open>s.strip()\<close> and \<open>s.strip(chars)\<close>: every leading and trailing member is removed.\<close>

definition strip_by :: "(int \<Rightarrow> bool) \<Rightarrow> ustring \<Rightarrow> ustring" where
  "strip_by p s = rev (dropWhile p (rev (dropWhile p s)))"

definition py_strip :: "ustring \<Rightarrow> ustring" where
  "py_strip s = strip_by isspace s"

definition py_strip_chars :: "ustring \<Rightarrow> ustring \<Rightarrow> ustring" where
  "py_strip_chars chars s = strip_by (\<lambda>c. c \<in> set chars) s"

text \<open>
  \<open>s.split(sep)\<close> for a separator of one code point. The result is never empty, so
  the first case of the \<open>case\<close> below does not occur.
\<close>

fun split_on :: "int \<Rightarrow> ustring \<Rightarrow> ustring list" where
  "split_on sep [] = [ []]"
| "split_on sep (c # cs) =
     (if c = sep then [] # split_on sep cs
      else (case split_on sep cs of [] \<Rightarrow> [ [c]] | r # rs \<Rightarrow> (c # r) # rs))"

text \<open>\<open>sep.join(xs)\<close>.\<close>

fun join :: "ustring \<Rightarrow> ustring list \<Rightarrow> ustring" where
  "join sep [] = []"
| "join sep [x] = x"
| "join sep (x # y # ys) = x @ sep @ join sep (y # ys)"

text \<open>\<open>s.ljust(w)\<close>: padded with spaces on the right, never truncated.\<close>

definition ljust :: "nat \<Rightarrow> ustring \<Rightarrow> ustring" where
  "ljust w s = s @ replicate (w - length s) 32"

text \<open>\<open>str(n)\<close> of a Python integer, as an f-string interpolates it.\<close>

fun show_nat :: "nat \<Rightarrow> ustring" where
  "show_nat n = (if n < 10 then [48 + int n] else show_nat (n div 10) @ [48 + int (n mod 10)])"

declare show_nat.simps [simp del]

definition show_int :: "int \<Rightarrow> ustring" where
  "show_int i = (if i < 0 then 45 # show_nat (nat (- i)) else show_nat (nat i))"

section \<open>The regular expressions of the renderer\<close>

text \<open>
  Every pattern of \<open>renderer.py\<close> is a sequence of quantified character classes, group
  parentheses and anchors. \<open>rmatch\<close> is the backtracking matcher of \<open>re\<close> on such
  sequences: a greedy quantifier tries the longest run first, a lazy one the shortest,
  and the first alternative whose continuation matches wins. The result is the list of
  positions of the group parentheses passed, and the end of the match.
\<close>

datatype quant = Greedy nat "nat option" | Lazy nat "nat option"

datatype item =
    Rep "int \<Rightarrow> bool" quant
  | Mark
  | Bol
  | Eol
  | Eos

definition upper :: "nat option \<Rightarrow> nat \<Rightarrow> nat" where
  "upper hi run = (case hi of None \<Rightarrow> run | Some h \<Rightarrow> min h run)"

definition counts :: "(int \<Rightarrow> bool) \<Rightarrow> quant \<Rightarrow> ustring \<Rightarrow> nat list" where
  "counts c q t =
     (let run = length (takeWhile c t) in
      case q of
        Greedy lo hi \<Rightarrow> rev [lo ..< Suc (upper hi run)]
      | Lazy lo hi \<Rightarrow> [lo ..< Suc (upper hi run)])"

fun first_some :: "'a option list \<Rightarrow> 'a option" where
  "first_some [] = None"
| "first_some (None # xs) = first_some xs"
| "first_some (Some y # xs) = Some y"

fun rmatch :: "item list \<Rightarrow> ustring \<Rightarrow> nat \<Rightarrow> (nat list \<times> nat) option" where
  "rmatch [] s p = Some ([], p)"
| "rmatch (Mark # r) s p = map_option (\<lambda>(ms, e). (p # ms, e)) (rmatch r s p)"
| "rmatch (Bol # r) s p = (if p = 0 then rmatch r s p else None)"
| "rmatch (Eol # r) s p =
     (if p = length s \<or> (Suc p = length s \<and> s ! p = 10) then rmatch r s p else None)"
| "rmatch (Eos # r) s p = (if p = length s then rmatch r s p else None)"
| "rmatch (Rep c q # r) s p =
     first_some (map (\<lambda>k. rmatch r s (p + k)) (counts c q (drop p s)))"

text \<open>\<open>re.match\<close>, \<open>re.fullmatch\<close> and \<open>re.search\<close>.\<close>

definition re_match :: "item list \<Rightarrow> ustring \<Rightarrow> (nat list \<times> nat) option" where
  "re_match pat s = rmatch pat s 0"

definition re_fullmatch :: "item list \<Rightarrow> ustring \<Rightarrow> (nat list \<times> nat) option" where
  "re_fullmatch pat s = rmatch (pat @ [Eos]) s 0"

definition re_search :: "item list \<Rightarrow> ustring \<Rightarrow> (nat list \<times> nat) option" where
  "re_search pat s = first_some (map (\<lambda>p. rmatch pat s p) [0 ..< Suc (length s)])"

text \<open>The text of group \<open>k\<close> (from 1) of a match on \<open>s\<close>.\<close>

definition group :: "ustring \<Rightarrow> nat list \<Rightarrow> nat \<Rightarrow> ustring" where
  "group s ms k = take (ms ! (2 * k - 1) - ms ! (2 * k - 2)) (drop (ms ! (2 * k - 2)) s)"

text \<open>
  \<open>re.sub(pat, repl, s)\<close>: scanning from the left, the text of each match is replaced and
  the scan goes on at its end; a code point where no match starts is copied. After an empty
  match the scan copies one code point and moves on (no pattern of the renderer matches the
  empty string).
\<close>

function re_sub_at ::
  "item list \<Rightarrow> (ustring \<Rightarrow> nat list \<Rightarrow> ustring) \<Rightarrow> ustring \<Rightarrow> nat \<Rightarrow> ustring" where
  "re_sub_at pat repl s i =
     (if length s < i then []
      else case rmatch pat s i of
        None \<Rightarrow> (if i < length s then s ! i # re_sub_at pat repl s (Suc i) else [])
      | Some (ms, e) \<Rightarrow>
          repl s ms @
          (if i < e then re_sub_at pat repl s e
           else if i < length s then s ! i # re_sub_at pat repl s (Suc i) else []))"
  by pat_completeness auto
termination
  by (relation "measure (\<lambda>(pat, repl, s, i). Suc (length s) - i)") auto

declare re_sub_at.simps [simp del]

definition re_sub :: "item list \<Rightarrow> (ustring \<Rightarrow> nat list \<Rightarrow> ustring) \<Rightarrow> ustring \<Rightarrow> ustring" where
  "re_sub pat repl s = re_sub_at pat repl s 0"

text \<open>The replacement templates \<open>r'\1'\<close> and \<open>''\<close>.\<close>

definition repl_group1 :: "ustring \<Rightarrow> nat list \<Rightarrow> ustring" where
  "repl_group1 s ms = group s ms 1"

definition repl_empty :: "ustring \<Rightarrow> nat list \<Rightarrow> ustring" where
  "repl_empty s ms = []"

text \<open>The character classes \<open>\*\<close>, \<open>.\<close> (no DOTALL flag) and \<open>[-*]\<close>.\<close>

definition is_star :: "int \<Rightarrow> bool" where
  "is_star c \<longleftrightarrow> c = 42"

definition is_dot :: "int \<Rightarrow> bool" where
  "is_dot c \<longleftrightarrow> c \<noteq> 10"

definition is_dash_star :: "int \<Rightarrow> bool" where
  "is_dash_star c \<longleftrightarrow> c = 45 \<or> c = 42"

text \<open>\<open>\*{n}(.+?)\*{n}\<close>, and \<open>^\*{n}(.+?)\*{n}$\<close>.\<close>

definition pat_wrapped :: "nat \<Rightarrow> item list" where
  "pat_wrapped n =
     [Rep is_star (Greedy n (Some n)), Mark, Rep is_dot (Lazy 1 None), Mark,
      Rep is_star (Greedy n (Some n))]"

definition pat_wrapped_anchored :: "nat \<Rightarrow> item list" where
  "pat_wrapped_anchored n = Bol # pat_wrapped n @ [Eol]"

text \<open>\<open>\*{1,3}\<close>.\<close>

definition pat_stars :: "item list" where
  "pat_stars = [Rep is_star (Greedy 1 (Some 3))]"

text \<open>\<open>^\s*([-*])\s+(.*)\<close>.\<close>

definition pat_quote_list :: "item list" where
  "pat_quote_list =
     [Bol, Rep isspace (Greedy 0 None), Mark, Rep is_dash_star (Greedy 1 (Some 1)), Mark,
      Rep isspace (Greedy 1 None), Mark, Rep is_dot (Greedy 0 None), Mark]"

section \<open>Errors\<close>

datatype error = KeyError string | ValueError | IndexError

definition ebind :: "error + 'a \<Rightarrow> ('a \<Rightarrow> error + 'b) \<Rightarrow> error + 'b" where
  "ebind m f = (case m of Inl e \<Rightarrow> Inl e | Inr x \<Rightarrow> f x)"

fun map_r :: "('a \<Rightarrow> error + 'b) \<Rightarrow> 'a list \<Rightarrow> error + 'b list" where
  "map_r f [] = Inr []"
| "map_r f (x # xs) = ebind (f x) (\<lambda>y. ebind (map_r f xs) (\<lambda>ys. Inr (y # ys)))"

text \<open>\<open>token[k]\<close> on a dictionary: KeyError when the key is absent.\<close>

definition field :: "string \<Rightarrow> 'a option \<Rightarrow> error + 'a" where
  "field k v = (case v of None \<Rightarrow> Inl (KeyError k) | Some x \<Rightarrow> Inr x)"

text \<open>\<open>max\<close> of a sequence is a ValueError on the empty one; \<open>xs[i]\<close> an IndexError out of range.\<close>

fun py_max :: "nat list \<Rightarrow> error + nat" where
  "py_max [] = Inl ValueError"
| "py_max (x # xs) = Inr (fold max xs x)"

definition py_nth :: "'a list \<Rightarrow> nat \<Rightarrow> error + 'a" where
  "py_nth xs i = (if i < length xs then Inr (xs ! i) else Inl IndexError)"

text \<open>\<open>zip(*rows)\<close>: the columns, as far as the shortest row goes.\<close>

definition zip_star :: "'a list list \<Rightarrow> 'a list list" where
  "zip_star rows =
     (case rows of
        [] \<Rightarrow> []
      | r # rs \<Rightarrow> map (\<lambda>j. map (\<lambda>row. row ! j) rows) [0 ..< fold min (map length rs) (length r)])"

section \<open>SlackRenderer._format_table\<close>

definition fence :: ustring where
  "fence = [96, 96, 96]"

definition row_cells :: "ustring \<Rightarrow> ustring list" where
  "row_cells row = split_on 124 (py_strip_chars [124] row)"

definition table_rows :: "ustring \<Rightarrow> ustring list list" where
  "table_rows table_md =
     (let rows_raw = map row_cells
            (filter (\<lambda>row. py_strip row \<noteq> []) (split_on 10 (py_strip table_md)))
      in map (map py_strip) rows_raw)"

definition pad_rows :: "nat \<Rightarrow> ustring list list \<Rightarrow> ustring list list" where
  "pad_rows max_cols rows = map (\<lambda>row. row @ replicate (max_cols - length row) []) rows"

definition format_row :: "nat list \<Rightarrow> ustring list \<Rightarrow> error + ustring" where
  "format_row col_widths row =
     ebind (map_r (\<lambda>(idx, cell). ebind (py_nth col_widths idx) (\<lambda>w. Inr (ljust w cell)))
              (enumerate 0 row))
       (\<lambda>cells. Inr (join [32, 124, 32] cells))"

definition format_table :: "ustring \<Rightarrow> error + ustring" where
  "format_table table_md =
     (let rows = table_rows table_md in
      if rows = [] then Inr (fence @ [10] @ fence)
      else
        ebind (py_max (map length rows)) (\<lambda>max_cols.
        let padded_rows = pad_rows max_cols rows in
        ebind (map_r (\<lambda>column. py_max (map length column)) (zip_star padded_rows)) (\<lambda>col_widths.
        ebind (map_r (format_row col_widths) padded_rows) (\<lambda>formatted_rows.
        Inr (fence @ [10] @ join [10] formatted_rows @ [10] @ fence)))))"

section \<open>SlackRenderer.render\<close>

datatype token_type =
    HRULE | PARAGRAPH | PARAGRAPH_BREAK | CODE_BLOCK | TABLE | BLOCK_QUOTE | HEADER
  | NUMBERED_LIST | LETTERED_LIST | UNORDERED_LIST | OTHER

text \<open>A token is a dictionary; a key that may be absent is an optional field.\<close>

record token =
  tk_type :: "token_type option"
  tk_value :: "ustring option"
  tk_indent :: "int option"
  tk_raw :: "ustring option"
  tk_level :: "int option"
  tk_number :: "int option"
  tk_bullet :: "ustring option"

type_synonym counters = "int \<rightharpoonup> int"

text \<open>The string literal between the quote prefix and the list content (line 51).\<close>

definition quote_bullet :: ustring where
  "quote_bullet = [226, 8364, 162]"

text \<open>Lines 27 to 32: \<open>list_counters.pop(indent_level, None)\<close>.\<close>

definition bookkeeping :: "token_type \<Rightarrow> int \<Rightarrow> counters \<Rightarrow> counters" where
  "bookkeeping token_type indent_level list_counters =
     (if token_type \<in> {UNORDERED_LIST, LETTERED_LIST} then list_counters(indent_level := None)
      else if token_type \<notin> {NUMBERED_LIST, PARAGRAPH, PARAGRAPH_BREAK}
        then list_counters(indent_level := None)
      else list_counters)"

definition header_line :: "ustring \<Rightarrow> ustring \<Rightarrow> ustring" where
  "header_line raw val =
     (if re_fullmatch (pat_wrapped 3) raw \<noteq> None then
        ustr ''*_'' @ re_sub (pat_wrapped_anchored 3) repl_group1 raw @ ustr ''_*''
      else if re_fullmatch (pat_wrapped 2) raw \<noteq> None then
        ustr ''*'' @ re_sub (pat_wrapped_anchored 2) repl_group1 raw @ ustr ''*''
      else if re_fullmatch (pat_wrapped 1) raw \<noteq> None then
        ustr ''*_'' @ re_sub (pat_wrapped_anchored 1) repl_group1 raw @ ustr ''_*''
      else if re_search (pat_wrapped 3) raw \<noteq> None then
        ustr ''*_'' @ re_sub (pat_wrapped 3) repl_group1 raw @ ustr ''_*''
      else if re_search (pat_wrapped 2) raw \<noteq> None then
        ustr ''*'' @ re_sub (pat_wrapped 2) repl_group1 raw @ ustr ''*''
      else if re_search (pat_wrapped 1) raw \<noteq> None then
        ustr ''*_'' @ re_sub (pat_wrapped 1) repl_group1 raw @ ustr ''_*''
      else ustr ''*'' @ re_sub pat_stars repl_empty val @ ustr ''*'')"

definition quote_line :: "ustring \<Rightarrow> ustring \<Rightarrow> ustring \<Rightarrow> ustring" where
  "quote_line quote_prefix indent_spaces val =
     (case re_match pat_quote_list val of
        Some (ms, e) \<Rightarrow> quote_prefix @ [32] @ quote_bullet @ [32] @ group val ms 2
      | None \<Rightarrow> quote_prefix @ [32] @ indent_spaces @ val)"

definition numbered :: "int \<Rightarrow> int \<Rightarrow> counters \<Rightarrow> counters \<times> ustring" where
  "numbered number indent_level list_counters =
     (let current_count = (case list_counters indent_level of None \<Rightarrow> 1 | Some c \<Rightarrow> c) in
      if number = 1 then (list_counters(indent_level \<mapsto> 2), ustr ''1.'')
      else if number = current_count
        then (list_counters(indent_level \<mapsto> number + 1), show_int number @ ustr ''.'')
      else (list_counters(indent_level \<mapsto> number + 1), show_int number @ ustr ''.''))"

text \<open>\<open>token.get('indent', 0)\<close>.\<close>

definition get_indent :: "token \<Rightarrow> int" where
  "get_indent token = (case tk_indent token of None \<Rightarrow> 0 | Some i \<Rightarrow> i)"

text \<open>One turn of the loop: the counter map after it, and the entry appended to \<open>output\<close>.\<close>

definition render_token :: "token \<Rightarrow> counters \<Rightarrow> error + (counters \<times> ustring)" where
  "render_token token list_counters =
     (let indent_level = get_indent token;
          indent_spaces = replicate (nat indent_level) 32
      in
      ebind (field ''type'' (tk_type token)) (\<lambda>token_type.
      let cs = bookkeeping token_type indent_level list_counters in
      case token_type of
        HRULE \<Rightarrow> Inr (cs, [10])
      | PARAGRAPH \<Rightarrow>
          ebind (field ''value'' (tk_value token)) (\<lambda>v. Inr (cs, indent_spaces @ v))
      | PARAGRAPH_BREAK \<Rightarrow> Inr (cs, [10])
      | CODE_BLOCK \<Rightarrow>
          ebind (field ''value'' (tk_value token)) (\<lambda>v. Inr (cs, v))
      | TABLE \<Rightarrow>
          ebind (field ''value'' (tk_value token)) (\<lambda>v.
          ebind (format_table v) (\<lambda>table_text. Inr (cs, table_text @ [10])))
      | BLOCK_QUOTE \<Rightarrow>
          ebind (field ''level'' (tk_level token)) (\<lambda>level.
          ebind (field ''value'' (tk_value token)) (\<lambda>v.
          Inr (cs, quote_line (replicate (nat level) 62) indent_spaces v)))
      | HEADER \<Rightarrow>
          (let raw = (case tk_raw token of None \<Rightarrow> [] | Some r \<Rightarrow> r) in
           ebind (field ''value'' (tk_value token)) (\<lambda>v.
           Inr (cs, indent_spaces @ header_line raw v)))
      | NUMBERED_LIST \<Rightarrow>
          ebind (field ''number'' (tk_number token)) (\<lambda>number.
          case numbered number indent_level cs of (cs', bullet) \<Rightarrow>
          ebind (field ''value'' (tk_value token)) (\<lambda>v.
          Inr (cs', indent_spaces @ bullet @ [32] @ v)))
      | LETTERED_LIST \<Rightarrow>
          ebind (field ''bullet'' (tk_bullet token)) (\<lambda>bullet.
          ebind (field ''value'' (tk_value token)) (\<lambda>v.
          Inr (cs, indent_spaces @ bullet @ [32] @ v)))
      | UNORDERED_LIST \<Rightarrow>
          ebind (field ''bullet'' (tk_bullet token)) (\<lambda>bullet.
          ebind (field ''value'' (tk_value token)) (\<lambda>v.
          Inr (cs, indent_spaces @ bullet @ [32] @ v)))
      | OTHER \<Rightarrow>
          ebind (field ''value'' (tk_value token)) (\<lambda>v. Inr (cs, indent_spaces @ v))))"

text \<open>The loop over the tokens, with the counter map and the output buffer as state.\<close>

fun render_loop :: "token list \<Rightarrow> counters \<Rightarrow> ustring list \<Rightarrow> error + ustring list" where
  "render_loop [] list_counters output = Inr output"
| "render_loop (token # tokens) list_counters output =
     ebind (render_token token list_counters) (\<lambda>(cs, line).
     render_loop tokens cs (output @ [line]))"

definition render :: "token list \<Rightarrow> error + ustring" where
  "render tokens = ebind (render_loop tokens Map.empty []) (\<lambda>output. Inr (join [10] output))"

text \<open>A token that has the keys \<open>type\<close> and \<open>value\<close> only, for the examples.\<close>

definition plain_token :: "token_type \<Rightarrow> ustring \<Rightarrow> token" where
  "plain_token ty v =
     \<lparr>tk_type = Some ty, tk_value = Some v, tk_indent = None, tk_raw = None,
      tk_level = None, tk_number = None, tk_bullet = None\<rparr>"

section \<open>The table layout in the words of the specification\<close>

text \<open>
  \<open>maxCols\<close>, the padding of a row, the width of a column and the rendering of a row,
  as section 4.2 of the specification words them, to be compared with \<open>format_table\<close>.
\<close>

definition spec_max_cols :: "ustring list list \<Rightarrow> nat" where
  "spec_max_cols rows = Max (set (map length rows))"

definition spec_pad :: "ustring list list \<Rightarrow> ustring list \<Rightarrow> ustring list" where
  "spec_pad rows row = row @ replicate (spec_max_cols rows - length row) []"

definition spec_col_width :: "ustring list list \<Rightarrow> nat \<Rightarrow> nat" where
  "spec_col_width rows j = Max (set (map (\<lambda>row. length (spec_pad rows row ! j)) rows))"

definition spec_table_line :: "ustring list list \<Rightarrow> ustring list \<Rightarrow> ustring" where
  "spec_table_line rows row =
     join (ustr '' | '')
       (map (\<lambda>j. ljust (spec_col_width rows j) (spec_pad rows row ! j))
          [0 ..< spec_max_cols rows])"

text \<open>
  The stripping of one leading and one trailing pipe, and the cells of a line, as the
  specification words them.
\<close>

definition spec_strip_one_pipe :: "ustring \<Rightarrow> ustring" where
  "spec_strip_one_pipe s =
     (let s1 = (case s of [] \<Rightarrow> [] | c # cs \<Rightarrow> if c = 124 then cs else s)
      in if s1 \<noteq> [] \<and> last s1 = 124 then butlast s1 else s1)"

definition spec_row_cells :: "ustring \<Rightarrow> ustring list" where
  "spec_row_cells line = map py_strip (split_on 124 (spec_strip_one_pipe line))"

text \<open>The entry a token appends, read off a turn of the loop on the empty counter map.\<close>

definition token_entry :: "token \<Rightarrow> error + ustring" where
  "token_entry t = (case render_token t Map.empty of Inl e \<Rightarrow> Inl e | Inr (cs, line) \<Rightarrow> Inr line)"

text \<open>
  A raw header text built from spans: each pair is a text and the inner text that follows
  it between \<open>n\<close> asterisks on each side; \<open>spans_text\<close> is the same without the asterisks.
\<close>

definition spans_raw :: "nat \<Rightarrow> (ustring \<times> ustring) list \<Rightarrow> ustring \<Rightarrow> ustring" where
  "spans_raw n spans post =
     concat (map (\<lambda>(a, b). a @ replicate n 42 @ b @ replicate n 42) spans) @ post"

definition spans_text :: "(ustring \<times> ustring) list \<Rightarrow> ustring \<Rightarrow> ustring" where
  "spans_text spans post = concat (map (\<lambda>(a, b). a @ b) spans) @ post"

section \<open>Basic facts\<close>

lemma ebind_Inr [simp]: "ebind (Inr x) f = f x"
  by (simp add: ebind_def)

lemma ebind_Inl [simp]: "ebind (Inl e) f = Inl e"
  by (simp add: ebind_def)

lemma field_Some [simp]: "field k (Some x) = Inr x"
  by (simp add: field_def)

lemma field_None [simp]: "field k None = Inl (KeyError k)"
  by (simp add: field_def)

lemma dropWhile_all: "\<forall>x\<in>set xs. P x \<Longrightarrow> dropWhile P xs = []"
  by (induction xs) auto

section \<open>Numbered lists and the counter map\<close>

lemma show_int_1: "show_int 1 = ustr ''1''"
  by (simp add: show_int_def show_nat.simps ustr_def)

lemma numbered_eq:
  "numbered n ind cs = (cs(ind \<mapsto> n + 1), show_int n @ ustr ''.'')"
  by (simp add: numbered_def Let_def show_int_1 ustr_def)

text \<open>
  Claim C5. A NUMBERED_LIST token with the keys \<open>number\<close> and \<open>value\<close> appends the
  entry made of the indent spaces, the decimal text of its own \<open>number\<close>, a full stop, a
  space and the value, whatever the counter map holds; and in every branch the counter of
  the token's indent level becomes \<open>number + 1\<close>, the other counters unchanged.
\<close>

theorem numbered_list_line:
  assumes "tk_type t = Some NUMBERED_LIST" and "tk_number t = Some n"
    and "tk_value t = Some v"
  shows "render_token t cs =
           Inr (cs(get_indent t \<mapsto> n + 1),
                replicate (nat (get_indent t)) 32 @ show_int n @ ustr ''. '' @ v)"
  using assms by (simp add: render_token_def Let_def bookkeeping_def numbered_eq ustr_def)

theorem numbered_list_line_witness:
  "render_token
     ((plain_token NUMBERED_LIST (ustr ''Item''))\<lparr>tk_number := Some 3, tk_indent := Some 0\<rparr>)
     [0 \<mapsto> 7] = Inr ([0 \<mapsto> 4], ustr ''3. Item'')"
  using numbered_list_line
    [of "(plain_token NUMBERED_LIST (ustr ''Item''))\<lparr>tk_number := Some 3, tk_indent := Some 0\<rparr>"
        3 "ustr ''Item''" "[0 \<mapsto> 7]"]
  by (simp add: plain_token_def get_indent_def show_int_def show_nat.simps ustr_def)

lemma render_token_counters:
  assumes "render_token t cs = Inr (cs', line)" and "tk_type t = Some ty"
    and "ty \<noteq> NUMBERED_LIST"
  shows "cs' = bookkeeping ty (get_indent t) cs"
  using assms
  by (cases ty)
     (auto simp: render_token_def Let_def ebind_def field_def split: option.splits sum.splits)

text \<open>
  Claim C6. Before a token is formatted, the bookkeeping removes the counter of the token's
  indent level when the type is UNORDERED_LIST or LETTERED_LIST, or any type other than
  NUMBERED_LIST, PARAGRAPH and PARAGRAPH_BREAK, and that is the counter map the turn of the
  loop ends with; it leaves the map as it is for PARAGRAPH and PARAGRAPH_BREAK, and so does
  the whole turn.
\<close>

theorem counter_bookkeeping:
  assumes "tk_type t = Some ty"
  shows "(ty \<in> {UNORDERED_LIST, LETTERED_LIST} \<or>
          ty \<notin> {NUMBERED_LIST, PARAGRAPH, PARAGRAPH_BREAK}
            \<longrightarrow> bookkeeping ty (get_indent t) cs = cs(get_indent t := None) \<and>
                (\<forall>cs' line. render_token t cs = Inr (cs', line)
                   \<longrightarrow> cs' = cs(get_indent t := None))) \<and>
         (ty \<in> {PARAGRAPH, PARAGRAPH_BREAK}
            \<longrightarrow> bookkeeping ty (get_indent t) cs = cs \<and>
                (\<forall>cs' line. render_token t cs = Inr (cs', line) \<longrightarrow> cs' = cs))"
proof -
  have step: "cs' = bookkeeping ty (get_indent t) cs"
    if "render_token t cs = Inr (cs', line)" "ty \<noteq> NUMBERED_LIST" for cs' line
    using render_token_counters [OF that(1) assms that(2)] .
  have drop: "bookkeeping ty (get_indent t) cs = cs(get_indent t := None)"
    if "ty \<in> {UNORDERED_LIST, LETTERED_LIST} \<or>
        ty \<notin> {NUMBERED_LIST, PARAGRAPH, PARAGRAPH_BREAK}"
    using that by (auto simp: bookkeeping_def)
  have keep: "bookkeeping ty (get_indent t) cs = cs" if "ty \<in> {PARAGRAPH, PARAGRAPH_BREAK}"
    using that by (auto simp: bookkeeping_def)
  show ?thesis
    using step drop keep by auto
qed

theorem counter_bookkeeping_witness:
  "render_token (plain_token HRULE []) [0 \<mapsto> 5] = Inr (Map.empty, [10]) \<and>
   render_token ((plain_token UNORDERED_LIST [])\<lparr>tk_bullet := Some [45]\<rparr>) [0 \<mapsto> 5]
     = Inr (Map.empty, [45, 32]) \<and>
   bookkeeping HEADER 0 [0 \<mapsto> 5] = Map.empty \<and>
   render_token (plain_token PARAGRAPH []) [0 \<mapsto> 5] = Inr ([0 \<mapsto> 5], []) \<and>
   render_token (plain_token PARAGRAPH_BREAK []) [0 \<mapsto> 5] = Inr ([0 \<mapsto> 5], [10])"
proof -
  let ?cs = "[0 \<mapsto> 5] :: counters"
  let ?ul = "(plain_token UNORDERED_LIST [])\<lparr>tk_bullet := Some [45]\<rparr>"
  have a: "\<exists>c. render_token (plain_token HRULE []) ?cs = Inr (c, [10])"
    by (simp add: render_token_def plain_token_def get_indent_def Let_def)
  have b: "\<exists>c. render_token (plain_token PARAGRAPH []) ?cs = Inr (c, [])"
    by (simp add: render_token_def plain_token_def get_indent_def Let_def)
  have c: "\<exists>c. render_token (plain_token PARAGRAPH_BREAK []) ?cs = Inr (c, [10])"
    by (simp add: render_token_def plain_token_def get_indent_def Let_def)
  have d: "\<exists>c. render_token ?ul ?cs = Inr (c, [45, 32])"
    by (simp add: render_token_def plain_token_def get_indent_def Let_def)
  show ?thesis
    using a b c d
      counter_bookkeeping [of "plain_token HRULE []" HRULE ?cs]
      counter_bookkeeping [of ?ul UNORDERED_LIST ?cs]
      counter_bookkeeping [of "plain_token HEADER []" HEADER ?cs]
      counter_bookkeeping [of "plain_token PARAGRAPH []" PARAGRAPH ?cs]
      counter_bookkeeping [of "plain_token PARAGRAPH_BREAK []" PARAGRAPH_BREAK ?cs]
    by (auto simp: plain_token_def get_indent_def)
qed

section \<open>Paragraphs\<close>

lemma render_token_paragraph:
  "tk_type t = Some PARAGRAPH \<Longrightarrow> tk_value t = Some v \<Longrightarrow>
   render_token t cs = Inr (cs, replicate (nat (get_indent t)) 32 @ v)"
  by (simp add: render_token_def Let_def bookkeeping_def)

lemma render_loop_paragraphs:
  "\<forall>t\<in>set ts. tk_type t = Some PARAGRAPH \<and> tk_value t \<noteq> None \<Longrightarrow>
   render_loop ts cs out =
     Inr (out @ map (\<lambda>t. replicate (nat (get_indent t)) 32 @ the (tk_value t)) ts)"
proof (induction ts arbitrary: cs out)
  case Nil
  show ?case by simp
next
  case (Cons t ts)
  from Cons.prems obtain v where tv: "tk_type t = Some PARAGRAPH" "tk_value t = Some v"
    by auto
  then have "render_token t cs = Inr (cs, replicate (nat (get_indent t)) 32 @ v)"
    by (rule render_token_paragraph)
  moreover have "\<forall>t\<in>set ts. tk_type t = Some PARAGRAPH \<and> tk_value t \<noteq> None"
    using Cons.prems by simp
  ultimately show ?case
    using Cons.IH tv(2) by simp
qed

text \<open>
  Claim C7. When every token has type PARAGRAPH (and carries its \<open>value\<close>), \<open>render\<close>
  returns the values, each after as many spaces as its \<open>indent\<close> (0 when the key is
  absent), joined by single newlines.
\<close>

theorem paragraphs_render:
  assumes "\<forall>t\<in>set ts. tk_type t = Some PARAGRAPH \<and> tk_value t \<noteq> None"
  shows "render ts =
           Inr (join [10]
                 (map (\<lambda>t. replicate (nat (get_indent t)) 32 @ the (tk_value t)) ts))"
  using render_loop_paragraphs [OF assms, of Map.empty "[]"] by (simp add: render_def)

theorem paragraphs_render_witness:
  "render [plain_token PARAGRAPH (ustr ''one''),
           (plain_token PARAGRAPH (ustr ''two''))\<lparr>tk_indent := Some 2\<rparr>] =
     Inr (ustr ''one\<newline>  two'')"
  using paragraphs_render
    [of "[plain_token PARAGRAPH (ustr ''one''),
          (plain_token PARAGRAPH (ustr ''two''))\<lparr>tk_indent := Some 2\<rparr>]"]
  by (simp add: plain_token_def get_indent_def ustr_def eval_nat_numeral)

section \<open>Tables\<close>

lemma py_max_Max: "xs \<noteq> [] \<Longrightarrow> py_max xs = Inr (Max (set xs))"
  by (cases xs) (simp_all add: Max.set_eq_fold [symmetric])

lemma map_r_total: "(\<And>x. x \<in> set xs \<Longrightarrow> f x = Inr (g x)) \<Longrightarrow> map_r f xs = Inr (map g xs)"
  by (induction xs) simp_all

lemma fold_min_const: "\<forall>n\<in>set ns. n = m \<Longrightarrow> fold min ns m = (m::nat)"
  by (induction ns) simp_all

lemma zip_star_uniform:
  assumes "rows \<noteq> []" and "\<forall>row\<in>set rows. length row = m"
  shows "zip_star rows = map (\<lambda>j. map (\<lambda>row. row ! j) rows) [0 ..< m]"
proof -
  obtain r rs where rows: "rows = r # rs"
    using assms(1) by (cases rows) auto
  have "fold min (map length rs) (length r) = m"
    using assms(2) unfolding rows by (simp add: fold_min_const)
  then show ?thesis
    by (simp add: zip_star_def rows)
qed

lemma length_le_max_cols: "row \<in> set rows \<Longrightarrow> length row \<le> spec_max_cols rows"
  by (simp add: spec_max_cols_def)

lemma length_spec_pad: "row \<in> set rows \<Longrightarrow> length (spec_pad rows row) = spec_max_cols rows"
  using length_le_max_cols [of row rows] by (simp add: spec_pad_def)

lemma pad_rows_spec: "pad_rows (spec_max_cols rows) rows = map (spec_pad rows) rows"
  by (simp add: pad_rows_def spec_pad_def)

lemma enumerate_map_upt: "map f (enumerate 0 xs) = map (\<lambda>j. f (j, xs ! j)) [0 ..< length xs]"
  by (rule nth_equalityI) (simp_all add: nth_enumerate_eq)

lemma map_r_map: "map_r g (map h xs) = map_r (\<lambda>x. g (h x)) xs"
  by (induction xs) simp_all

lemma col_widths_spec:
  assumes "rows \<noteq> []"
  shows "map_r (\<lambda>column. py_max (map length column)) (zip_star (map (spec_pad rows) rows))
           = Inr (map (spec_col_width rows) [0 ..< spec_max_cols rows])"
proof -
  let ?m = "spec_max_cols rows"
  let ?cols = "map (\<lambda>j. map (\<lambda>row. row ! j) (map (spec_pad rows) rows)) [0 ..< ?m]"
  have z: "zip_star (map (spec_pad rows) rows) = ?cols"
    using assms by (intro zip_star_uniform) (auto simp: length_spec_pad)
  have "map_r (\<lambda>column. py_max (map length column)) ?cols
          = Inr (map (\<lambda>column. Max (set (map length column))) ?cols)"
    using assms by (intro map_r_total py_max_Max) auto
  also have "map (\<lambda>column. Max (set (map length column))) ?cols
          = map (spec_col_width rows) [0 ..< ?m]"
    by (simp add: spec_col_width_def comp_def image_image)
  finally show ?thesis
    by (simp only: z)
qed

lemma format_row_spec:
  assumes "row \<in> set rows"
  shows "format_row (map (spec_col_width rows) [0 ..< spec_max_cols rows]) (spec_pad rows row)
           = Inr (spec_table_line rows row)"
proof -
  let ?m = "spec_max_cols rows"
  let ?ws = "map (spec_col_width rows) [0 ..< ?m]"
  let ?p = "spec_pad rows row"
  have len: "length ?p = ?m"
    using assms by (rule length_spec_pad)
  have "map_r (\<lambda>(idx, cell). ebind (py_nth ?ws idx) (\<lambda>w. Inr (ljust w cell))) (enumerate 0 ?p)
          = Inr (map (\<lambda>(idx, cell). ljust (spec_col_width rows idx) cell) (enumerate 0 ?p))"
  proof (rule map_r_total)
    fix x assume "x \<in> set (enumerate 0 ?p)"
    then have "fst x < ?m"
      using len by (auto simp: in_set_enumerate_eq)
    then show "(case x of (idx, cell) \<Rightarrow> ebind (py_nth ?ws idx) (\<lambda>w. Inr (ljust w cell)))
                 = Inr (case x of (idx, cell) \<Rightarrow> ljust (spec_col_width rows idx) cell)"
      by (cases x) (simp add: py_nth_def)
  qed
  moreover have "map (\<lambda>(idx, cell). ljust (spec_col_width rows idx) cell) (enumerate 0 ?p)
          = map (\<lambda>j. ljust (spec_col_width rows j) (?p ! j)) [0 ..< ?m]"
    using len by (simp add: enumerate_map_upt)
  ultimately show ?thesis
    by (simp add: format_row_def spec_table_line_def ustr_def)
qed

lemma format_table_spec:
  assumes "table_rows table_md \<noteq> []"
  shows "format_table table_md =
           Inr (fence @ [10] @
                join [10] (map (spec_table_line (table_rows table_md)) (table_rows table_md)) @
                [10] @ fence)"
proof -
  let ?rows = "table_rows table_md"
  have m: "py_max (map length ?rows) = Inr (spec_max_cols ?rows)"
    using assms by (simp add: py_max_Max spec_max_cols_def)
  have f: "map_r (format_row (map (spec_col_width ?rows) [0 ..< spec_max_cols ?rows]))
             (map (spec_pad ?rows) ?rows) = Inr (map (spec_table_line ?rows) ?rows)"
  proof -
    have "map_r (\<lambda>row. format_row (map (spec_col_width ?rows) [0 ..< spec_max_cols ?rows])
                   (spec_pad ?rows row)) ?rows = Inr (map (spec_table_line ?rows) ?rows)"
      by (rule map_r_total) (simp add: format_row_spec)
    then show ?thesis
      by (simp add: map_r_map)
  qed
  show ?thesis
    using assms by (simp add: format_table_def Let_def m pad_rows_spec col_widths_spec f)
qed

text \<open>
  Claim C8. When the markup has a non-blank row, the formatter pads each row with empty
  cells to \<open>maxCols\<close>, the largest number of cells of a row, takes as the width of a
  column the largest length of a cell of that column over the padded rows, and renders
  each row as its cells, left-justified to the widths of their columns and joined with
  \<open>" | "\<close>; the rendered rows, joined with newlines, stand between the two fences. The
  rows \<open>a, bb\<close> and \<open>ccc, d\<close> give the widths 3 and 2 and the lines of the example.
\<close>

theorem table_layout:
  assumes "table_rows table_md \<noteq> []"
  shows "format_table table_md =
           Inr (ustr ''```\<newline>'' @
                join (ustr ''\<newline>'')
                  (map (spec_table_line (table_rows table_md)) (table_rows table_md)) @
                ustr ''\<newline>```'')"
  using format_table_spec [OF assms] by (simp add: fence_def ustr_def)

theorem table_layout_witness:
  "table_rows (ustr ''a|bb\<newline>ccc|d'') = [ [ustr ''a'', ustr ''bb''], [ustr ''ccc'', ustr ''d'']] \<and>
   map (spec_col_width (table_rows (ustr ''a|bb\<newline>ccc|d''))) [0 ..< 2] = [3, 2] \<and>
   format_table (ustr ''a|bb\<newline>ccc|d'') =
     Inr (ustr ''```\<newline>a   | bb\<newline>ccc | d \<newline>```'')"
proof -
  let ?md = "ustr ''a|bb\<newline>ccc|d''"
  have rows: "table_rows ?md = [ [ustr ''a'', ustr ''bb''], [ustr ''ccc'', ustr ''d'']]"
    by code_simp
  have widths: "map (spec_col_width (table_rows ?md)) [0 ..< 2] = [3, 2]"
    by code_simp
  have lines: "map (spec_table_line (table_rows ?md)) (table_rows ?md)
                 = [ustr ''a   | bb'', ustr ''ccc | d '']"
    by code_simp
  have "table_rows ?md \<noteq> []"
    by (simp add: rows)
  from table_layout [OF this] have "format_table ?md =
      Inr (ustr ''```\<newline>'' @ join (ustr ''\<newline>'') [ustr ''a   | bb'', ustr ''ccc | d ''] @ ustr ''\<newline>```'')"
    by (simp only: lines)
  then have "format_table ?md = Inr (ustr ''```\<newline>a   | bb\<newline>ccc | d \<newline>```'')"
    by (simp add: ustr_def)
  with rows widths show ?thesis by simp
qed

lemma split_on_nonempty [simp]: "split_on sep s \<noteq> []"
  by (induction s) (simp_all split: list.splits)

lemma split_on_subset: "x \<in> set (split_on sep s) \<Longrightarrow> set x \<subseteq> set s"
proof (induction s arbitrary: x)
  case Nil
  then show ?case by simp
next
  case (Cons c cs)
  obtain r rs where rs: "split_on sep cs = r # rs"
    by (cases "split_on sep cs") simp_all
  have "set r \<subseteq> set cs" and "\<forall>y\<in>set rs. set y \<subseteq> set cs"
    using Cons.IH by (simp_all add: rs)
  then show ?case
    using Cons.prems by (auto simp: rs split: if_splits)
qed

lemma split_on_no_sep: "x \<in> set (split_on sep s) \<Longrightarrow> sep \<notin> set x"
proof (induction s arbitrary: x)
  case Nil
  then show ?case by simp
next
  case (Cons c cs)
  obtain r rs where rs: "split_on sep cs = r # rs"
    by (cases "split_on sep cs") simp_all
  have "sep \<notin> set r" and "\<forall>y\<in>set rs. sep \<notin> set y"
    using Cons.IH by (simp_all add: rs)
  then show ?case
    using Cons.prems by (auto simp: rs split: if_splits)
qed

lemma set_strip_by: "set (strip_by p s) \<subseteq> set s"
proof -
  have "set (dropWhile p xs) \<subseteq> set xs" for xs :: ustring
    by (auto dest: set_dropWhileD)
  from this [of "rev (dropWhile p s)"] this [of s] show ?thesis
    by (auto simp: strip_by_def)
qed

lemma table_cell_no_newline:
  assumes "row \<in> set (table_rows table_md)" and "cell \<in> set row"
  shows "10 \<notin> set cell"
proof -
  from assms(1) obtain line where line: "line \<in> set (split_on 10 (py_strip table_md))"
    and row: "row = map py_strip (row_cells line)"
    by (auto simp: table_rows_def)
  from assms(2) row obtain raw where raw: "raw \<in> set (row_cells line)" and cell: "cell = py_strip raw"
    by auto
  have "10 \<notin> set line"
    using line by (rule split_on_no_sep)
  moreover have "set raw \<subseteq> set line"
    using raw split_on_subset [of raw 124 "py_strip_chars [124] line"]
      set_strip_by [of "\<lambda>c. c \<in> set [124]" line]
    by (auto simp: row_cells_def py_strip_chars_def)
  moreover have "set cell \<subseteq> set raw"
    unfolding cell py_strip_def by (rule set_strip_by)
  ultimately show ?thesis by auto
qed

lemma table_row_nonempty: "row \<in> set (table_rows table_md) \<Longrightarrow> row \<noteq> []"
  by (auto simp: table_rows_def row_cells_def)

lemma length_join:
  "length (join sep xs) = sum_list (map length xs) + length sep * (length xs - 1)"
  by (induction sep xs rule: join.induct) simp_all

lemma set_join: "set (join sep xs) \<subseteq> set sep \<union> \<Union> (set ` set xs)"
  by (induction sep xs rule: join.induct) auto

lemma split_on_no_sep_id: "sep \<notin> set a \<Longrightarrow> split_on sep a = [a]"
  by (induction a) simp_all

lemma split_on_append: "sep \<notin> set a \<Longrightarrow> split_on sep (a @ sep # b) = a # split_on sep b"
  by (induction a) simp_all

lemma split_on_join:
  "ls \<noteq> [] \<Longrightarrow> \<forall>l\<in>set ls. sep \<notin> set l \<Longrightarrow>
   split_on sep (join [sep] ls @ sep # b) = ls @ split_on sep b"
proof (induction "[sep]" ls rule: join.induct)
  case 1
  then show ?case by simp
next
  case (2 x)
  then show ?case by (simp add: split_on_append)
next
  case (3 x y ys)
  then have "split_on sep (join [sep] (y # ys) @ sep # b) = (y # ys) @ split_on sep b"
    by simp
  moreover have "sep \<notin> set x"
    using 3 by simp
  ultimately show ?case
    using split_on_append [of sep x "join [sep] (y # ys) @ sep # b"] by simp
qed

lemma length_ljust: "length s \<le> w \<Longrightarrow> length (ljust w s) = w"
  by (simp add: ljust_def)

lemma set_ljust: "set (ljust w s) \<subseteq> insert 32 (set s)"
  by (auto simp: ljust_def)

lemma cell_le_col_width:
  "row \<in> set rows \<Longrightarrow> length (spec_pad rows row ! j) \<le> spec_col_width rows j"
  by (simp add: spec_col_width_def)

lemma length_spec_table_line:
  assumes "row \<in> set rows"
  shows "length (spec_table_line rows row) =
           sum_list (map (spec_col_width rows) [0 ..< spec_max_cols rows]) +
           3 * (spec_max_cols rows - 1)"
proof -
  let ?cells = "map (\<lambda>j. ljust (spec_col_width rows j) (spec_pad rows row ! j))
                  [0 ..< spec_max_cols rows]"
  have s: "sum_list (map length ?cells) = sum_list (map (spec_col_width rows) [0 ..< spec_max_cols rows])"
    using assms
    by (intro arg_cong [where f = sum_list]) (simp add: length_ljust cell_le_col_width)
  have "length (spec_table_line rows row) =
          sum_list (map length ?cells) + length (ustr '' | '') * (length ?cells - 1)"
    unfolding spec_table_line_def by (rule length_join)
  then show ?thesis
    unfolding s by (simp add: ustr_def)
qed

lemma spec_pad_cell:
  "j < spec_max_cols rows \<Longrightarrow> row \<in> set rows \<Longrightarrow>
   spec_pad rows row ! j \<in> set row \<or> spec_pad rows row ! j = []"
  by (auto simp: spec_pad_def nth_append)

lemma spec_table_line_no_newline:
  assumes "row \<in> set (table_rows table_md)"
  shows "10 \<notin> set (spec_table_line (table_rows table_md) row)"
proof
  let ?rows = "table_rows table_md"
  assume "10 \<in> set (spec_table_line ?rows row)"
  then have "10 \<in> \<Union> (set ` set (map (\<lambda>j. ljust (spec_col_width ?rows j) (spec_pad ?rows row ! j))
                                   [0 ..< spec_max_cols ?rows]))"
    using set_join [of "ustr '' | ''"] by (fastforce simp: spec_table_line_def ustr_def)
  then obtain j where j: "j < spec_max_cols ?rows"
    and "10 \<in> set (ljust (spec_col_width ?rows j) (spec_pad ?rows row ! j))"
    by auto
  then have "10 \<in> set (spec_pad ?rows row ! j)"
    using set_ljust by fastforce
  with spec_pad_cell [OF j assms] have "\<exists>cell\<in>set row. 10 \<in> set cell"
    by auto
  with table_cell_no_newline [OF assms] show False
    by auto
qed

text \<open>
  Claim C10. When the markup has a non-blank row, the lines of the formatter's output are
  the opening fence, one line for each row, and the closing fence; and each line between
  the fences has as many code points as the sum of the column widths plus three times
  \<open>maxCols - 1\<close>.
\<close>

theorem table_lines_equal_length:
  assumes "table_rows table_md \<noteq> []"
  shows "\<exists>out ls. format_table table_md = Inr out \<and>
           split_on 10 out = [ustr ''```''] @ ls @ [ustr ''```''] \<and>
           length ls = length (table_rows table_md) \<and>
           (\<forall>l\<in>set ls. length l =
              sum_list (map (spec_col_width (table_rows table_md))
                         [0 ..< spec_max_cols (table_rows table_md)]) +
              3 * (spec_max_cols (table_rows table_md) - 1))"
proof -
  let ?rows = "table_rows table_md"
  let ?ls = "map (spec_table_line ?rows) ?rows"
  have out: "format_table table_md = Inr (fence @ [10] @ join [10] ?ls @ [10] @ fence)"
    using assms by (rule format_table_spec)
  have nl: "\<forall>l\<in>set ?ls. 10 \<notin> set l"
    using spec_table_line_no_newline by auto
  have "split_on 10 (fence @ 10 # (join [10] ?ls @ 10 # fence))
          = fence # split_on 10 (join [10] ?ls @ 10 # fence)"
    by (rule split_on_append) (simp add: fence_def)
  also have "split_on 10 (join [10] ?ls @ 10 # fence) = ?ls @ split_on 10 fence"
    using assms nl by (intro split_on_join) auto
  also have "split_on 10 fence = [fence]"
    by (rule split_on_no_sep_id) (simp add: fence_def)
  finally have sp: "split_on 10 (fence @ [10] @ join [10] ?ls @ [10] @ fence)
                      = [ustr ''```''] @ ?ls @ [ustr ''```'']"
    by (simp add: fence_def ustr_def)
  have len: "\<forall>l\<in>set ?ls. length l =
              sum_list (map (spec_col_width ?rows) [0 ..< spec_max_cols ?rows]) +
              3 * (spec_max_cols ?rows - 1)"
    by (auto simp: length_spec_table_line)
  show ?thesis
    using out sp len by (intro exI [of _ "fence @ [10] @ join [10] ?ls @ [10] @ fence"] exI [of _ ?ls]) simp
qed

theorem table_lines_equal_length_witness:
  "\<exists>out ls. format_table (ustr ''| a | bb | c |\<newline>| ccc | d |'') = Inr out \<and>
     split_on 10 out = [ustr ''```''] @ ls @ [ustr ''```''] \<and> length ls = 2 \<and>
     (\<forall>l\<in>set ls. length l = 12)"
proof -
  let ?md = "ustr ''| a | bb | c |\<newline>| ccc | d |''"
  have rows: "table_rows ?md = [ [ustr ''a'', ustr ''bb'', ustr ''c''], [ustr ''ccc'', ustr ''d'']]"
    by code_simp
  have ne: "table_rows ?md \<noteq> []"
    by (simp add: rows)
  have n: "length (table_rows ?md) = 2"
    by (simp add: rows)
  have "sum_list (map (spec_col_width [ [ustr ''a'', ustr ''bb'', ustr ''c''], [ustr ''ccc'', ustr ''d'']])
               [0 ..< spec_max_cols [ [ustr ''a'', ustr ''bb'', ustr ''c''], [ustr ''ccc'', ustr ''d'']]]) +
             3 * (spec_max_cols [ [ustr ''a'', ustr ''bb'', ustr ''c''], [ustr ''ccc'', ustr ''d'']] - 1) = 12"
    by code_simp
  then have w: "sum_list (map (spec_col_width (table_rows ?md)) [0 ..< spec_max_cols (table_rows ?md)]) +
             3 * (spec_max_cols (table_rows ?md) - 1) = 12"
    by (simp only: rows)
  show ?thesis
    using table_lines_equal_length [OF ne] unfolding n w .
qed

lemma dropWhile_prefix: "\<forall>x\<in>set xs. P x \<Longrightarrow> dropWhile P (xs @ ys) = dropWhile P ys"
  by (induction xs) auto

lemma strip_by_wrapped:
  assumes "\<forall>x\<in>set pre. p x" and "\<forall>x\<in>set post. p x"
    and "body = [] \<or> (\<not> p (hd body) \<and> \<not> p (last body))"
  shows "strip_by p (pre @ body @ post) = body"
proof (cases "body = []")
  case True
  then show ?thesis
    using assms(1,2) by (simp add: strip_by_def dropWhile_all)
next
  case False
  with assms(3) have hd: "\<not> p (hd body)" and last: "\<not> p (last body)"
    by auto
  have "dropWhile p (pre @ body @ post) = dropWhile p (body @ post)"
    using assms(1) by (rule dropWhile_prefix)
  also have "\<dots> = body @ post"
    using False hd by (cases body) simp_all
  finally have l: "dropWhile p (pre @ body @ post) = body @ post" .
  have "dropWhile p (rev post @ rev body) = dropWhile p (rev body)"
    using assms(2) by (intro dropWhile_prefix) simp
  also have "\<dots> = rev body"
    using False last by (cases "rev body") (simp_all add: hd_rev [symmetric])
  finally show ?thesis
    by (simp add: strip_by_def l)
qed

text \<open>
  Claim C3, as amended. \<open>row.strip('|')\<close> removes every leading and every trailing pipe
  of a line, not one of each: a line made of any number of pipes, a body that neither
  starts nor ends with a pipe, and any number of pipes, is cut down to the body, which is
  then split on its pipes into cells that are trimmed of whitespace.
\<close>

theorem row_cells_strips_all_pipes:
  assumes "body = [] \<or> (hd body \<noteq> 124 \<and> last body \<noteq> 124)"
  shows "py_strip_chars (ustr ''|'') (replicate a 124 @ body @ replicate b 124) = body \<and>
         map py_strip (row_cells (replicate a 124 @ body @ replicate b 124))
           = map py_strip (split_on 124 body)"
proof -
  have "py_strip_chars [124] (replicate a 124 @ body @ replicate b 124) = body"
    unfolding py_strip_chars_def using assms by (intro strip_by_wrapped) auto
  then show ?thesis
    by (simp add: row_cells_def ustr_def)
qed

theorem row_cells_strips_all_pipes_witness:
  "map py_strip (row_cells (ustr ''||| a | b ||'')) = [ustr ''a'', ustr ''b'']"
proof -
  have "map py_strip (split_on 124 (ustr '' a | b '')) = [ustr ''a'', ustr ''b'']"
    by code_simp
  moreover have "ustr ''||| a | b ||'' = replicate 3 124 @ ustr '' a | b '' @ replicate 2 124"
    by (simp add: ustr_def eval_nat_numeral)
  ultimately show ?thesis
    using row_cells_strips_all_pipes [of "ustr '' a | b ''" 3 2]
    by (simp add: ustr_def)
qed

text \<open>
  The claim as stated fails on the line \<open>||a||\<close>: stripping one pipe on each side would
  leave \<open>|a|\<close> and three cells; the formatter has the single cell \<open>a\<close>.
\<close>

theorem strip_one_pipe_counterexample:
  "table_rows (ustr ''||a||'') = [ [ustr ''a'']] \<and>
   spec_row_cells (ustr ''||a||'') = [ [], ustr ''a'', []] \<and>
   table_rows (ustr ''||a||'') \<noteq> [spec_row_cells (ustr ''||a||'')]"
  by code_simp

lemma table_rows_blank: "\<forall>c\<in>set md. isspace c \<Longrightarrow> table_rows md = []"
  by (simp add: table_rows_def py_strip_def strip_by_def dropWhile_all)

lemma strip_by_Nil: "strip_by p s = [] \<longleftrightarrow> (\<forall>x\<in>set s. p x)"
proof
  assume "\<forall>x\<in>set s. p x"
  then show "strip_by p s = []"
    by (simp add: strip_by_def dropWhile_all)
next
  assume e: "strip_by p s = []"
  show "\<forall>x\<in>set s. p x"
  proof (cases "dropWhile p s = []")
    case True
    then show ?thesis by (simp add: dropWhile_eq_Nil_conv)
  next
    case False
    then have "\<not> p (hd (dropWhile p s))"
      by (rule hd_dropWhile)
    moreover have "hd (dropWhile p s) \<in> set (dropWhile p s)"
      using False by simp
    moreover have "\<forall>x\<in>set (dropWhile p s). p x"
      using e by (simp add: strip_by_def dropWhile_eq_Nil_conv)
    ultimately show ?thesis by blast
  qed
qed

lemma split_on_cover:
  "x \<in> set s \<Longrightarrow> x = sep \<or> (\<exists>l\<in>set (split_on sep s). x \<in> set l)"
proof (induction s)
  case Nil
  then show ?case by simp
next
  case (Cons c cs)
  obtain r rs where rs: "split_on sep cs = r # rs"
    by (cases "split_on sep cs") simp_all
  show ?case
  proof (cases "x = c")
    case True
    then show ?thesis by (simp add: rs)
  next
    case False
    with Cons have "x = sep \<or> (\<exists>l\<in>set (split_on sep cs). x \<in> set l)"
      by simp
    then show ?thesis
      by (auto simp: rs)
  qed
qed

lemma blank_lines_whitespace:
  assumes "\<forall>line\<in>set (split_on 10 md). py_strip line = []"
  shows "\<forall>c\<in>set md. isspace c"
proof
  fix c assume "c \<in> set md"
  then have "c = 10 \<or> (\<exists>l\<in>set (split_on 10 md). c \<in> set l)"
    by (rule split_on_cover)
  moreover have "isspace 10"
    by (simp add: isspace_def)
  moreover have "isspace c" if "l \<in> set (split_on 10 md)" "c \<in> set l" for l
    using assms that by (auto simp: py_strip_def strip_by_Nil)
  ultimately show "isspace c" by blast
qed

text \<open>
  Claim C9. On a markup with no non-blank line, that is one whose lines are all empty
  after stripping, such as the empty string or a whitespace-only one, the table formatter
  returns the fixed empty fenced block and raises nothing.
\<close>

theorem blank_table_empty_block:
  assumes "\<forall>line\<in>set (split_on 10 table_md). py_strip line = []"
  shows "format_table table_md = Inr (ustr ''```\<newline>```'')"
  using table_rows_blank [OF blank_lines_whitespace [OF assms]]
  by (simp add: format_table_def fence_def ustr_def)

theorem blank_table_empty_block_witness:
  "format_table [] = Inr (ustr ''```\<newline>```'') \<and>
   format_table (ustr '' \<newline>  '') = Inr (ustr ''```\<newline>```'')"
proof -
  have "\<forall>line\<in>set (split_on 10 (ustr '' \<newline>  '')). py_strip line = []"
    by code_simp
  then show ?thesis
    using blank_table_empty_block [of "[]"] blank_table_empty_block [of "ustr '' \<newline>  ''"]
    by (simp add: py_strip_def strip_by_def)
qed

section \<open>Rules and paragraph breaks\<close>

lemma render_token_entry:
  "(case render_token t cs of Inl e \<Rightarrow> Inl e | Inr (cs', line) \<Rightarrow> Inr line) = token_entry t"
proof (cases "tk_type t")
  case None
  then show ?thesis by (simp add: token_entry_def render_token_def Let_def)
next
  case (Some ty)
  then show ?thesis
    by (cases ty)
       (simp_all add: token_entry_def render_token_def Let_def ebind_def field_def numbered_eq
          split: option.splits sum.splits)
qed

lemma render_loop_entries:
  "render_loop ts cs out = ebind (map_r token_entry ts) (\<lambda>ls. Inr (out @ ls))"
proof (induction ts arbitrary: cs out)
  case Nil
  show ?case by simp
next
  case (Cons t ts)
  show ?case
  proof (cases "render_token t cs")
    case (Inl e)
    with render_token_entry [of t cs] have "token_entry t = Inl e" by simp
    with Inl show ?thesis by simp
  next
    case (Inr r)
    obtain cs' line where r: "r = (cs', line)" by (cases r)
    with Inr render_token_entry [of t cs] have "token_entry t = Inr line" by simp
    with Inr r Cons.IH [of cs' "out @ [line]"] show ?thesis
      by (cases "map_r token_entry ts") simp_all
  qed
qed

lemma render_entries: "render ts = ebind (map_r token_entry ts) (\<lambda>ls. Inr (join [10] ls))"
  by (cases "map_r token_entry ts") (simp_all add: render_def render_loop_entries)

lemma map_r_append:
  "map_r f (xs @ ys) = ebind (map_r f xs) (\<lambda>a. ebind (map_r f ys) (\<lambda>b. Inr (a @ b)))"
proof (induction xs)
  case Nil
  show ?case by (cases "map_r f ys") simp_all
next
  case (Cons x xs)
  show ?case
    by (cases "f x"; cases "map_r f xs"; cases "map_r f ys") (simp_all add: Cons.IH)
qed

lemma map_r_length: "map_r f xs = Inr ys \<Longrightarrow> length ys = length xs"
proof (induction xs arbitrary: ys)
  case Nil
  then show ?case by simp
next
  case (Cons x xs)
  then show ?case
    by (cases "f x"; cases "map_r f xs") auto
qed

lemma join_append:
  "xs \<noteq> [] \<Longrightarrow> ys \<noteq> [] \<Longrightarrow> join sep (xs @ ys) = join sep xs @ sep @ join sep ys"
proof (induction sep xs rule: join.induct)
  case (1 sep)
  then show ?case by simp
next
  case (2 sep x)
  then show ?case by (cases ys) simp_all
next
  case (3 sep x y ys')
  then show ?case by simp
qed

lemma blank_entry:
  "tk_type t = Some HRULE \<or> tk_type t = Some PARAGRAPH_BREAK \<Longrightarrow> token_entry t = Inr [10]"
  by (auto simp: token_entry_def render_token_def Let_def)

text \<open>
  Claim C4, as amended. An HRULE or PARAGRAPH_BREAK token appends one entry, the single
  newline character; the entries are joined with single newlines and nothing follows the
  last one. So the output of the token alone is one newline, and the token puts two
  newlines after the text before it, two before the text after it, and three newlines,
  that is two empty lines, between the texts on its two sides.
\<close>

theorem blank_line_entry:
  assumes "tk_type t = Some HRULE \<or> tk_type t = Some PARAGRAPH_BREAK"
  shows "(\<exists>cs'. render_token t cs = Inr (cs', [10])) \<and>
         render [t] = Inr [10] \<and>
         (\<forall>a. ts1 \<noteq> [] \<and> render ts1 = Inr a \<longrightarrow> render (ts1 @ [t]) = Inr (a @ [10, 10])) \<and>
         (\<forall>b. ts2 \<noteq> [] \<and> render ts2 = Inr b \<longrightarrow> render ([t] @ ts2) = Inr ([10, 10] @ b)) \<and>
         (\<forall>a b. ts1 \<noteq> [] \<and> ts2 \<noteq> [] \<and> render ts1 = Inr a \<and> render ts2 = Inr b
            \<longrightarrow> render (ts1 @ [t] @ ts2) = Inr (a @ [10, 10, 10] @ b))"
proof -
  have e: "token_entry t = Inr [10]"
    using assms by (rule blank_entry)
  have step: "\<exists>cs'. render_token t cs = Inr (cs', [10])"
    using assms by (auto simp: render_token_def Let_def)
  have one: "render [t] = Inr [10]"
    by (simp add: render_entries e)
  have entries: "\<exists>ls. map_r token_entry ts = Inr ls \<and> ls \<noteq> [] \<and> a = join [10] ls"
    if "ts \<noteq> []" "render ts = Inr a" for ts a
  proof (cases "map_r token_entry ts")
    case (Inl err)
    with that(2) show ?thesis by (simp add: render_entries)
  next
    case (Inr ls)
    with that(1) map_r_length [OF Inr] have "ls \<noteq> []" by auto
    with Inr that(2) show ?thesis by (simp add: render_entries)
  qed
  have last: "render (ts1 @ [t]) = Inr (a @ [10, 10])" if "ts1 \<noteq> []" "render ts1 = Inr a" for a
  proof -
    from entries [OF that] obtain ls where "map_r token_entry ts1 = Inr ls" "ls \<noteq> []" "a = join [10] ls"
      by blast
    then show ?thesis
      by (simp add: render_entries map_r_append e join_append)
  qed
  have first: "render ([t] @ ts2) = Inr ([10, 10] @ b)" if "ts2 \<noteq> []" "render ts2 = Inr b" for b
  proof -
    from entries [OF that] obtain ls where ls: "map_r token_entry ts2 = Inr ls" "ls \<noteq> []" "b = join [10] ls"
      by blast
    then show ?thesis
      using join_append [of "[ [10]]" ls "[10]"] by (simp add: render_entries e)
  qed
  have mid: "render (ts1 @ [t] @ ts2) = Inr (a @ [10, 10, 10] @ b)"
    if "ts1 \<noteq> []" "ts2 \<noteq> []" "render ts1 = Inr a" "render ts2 = Inr b" for a b
  proof -
    from entries [OF that(1,3)] obtain l1 where l1: "map_r token_entry ts1 = Inr l1" "l1 \<noteq> []" "a = join [10] l1"
      by blast
    from entries [OF that(2,4)] obtain l2 where l2: "map_r token_entry ts2 = Inr l2" "l2 \<noteq> []" "b = join [10] l2"
      by blast
    have "join [10] (l1 @ [ [10]] @ l2) = join [10] l1 @ [10] @ join [10] ([ [10]] @ l2)"
      using l1(2) by (intro join_append) simp_all
    also have "join [10] ([ [10]] @ l2) = [10] @ [10] @ join [10] l2"
      using l2(2) join_append [of "[ [10]]" l2 "[10]"] by simp
    finally have "join [10] (l1 @ [ [10]] @ l2) = a @ [10, 10, 10] @ b"
      by (simp add: l1(3) l2(3))
    then show ?thesis
      by (simp add: render_entries map_r_append e l1(1) l2(1))
  qed
  show ?thesis
    using step one last first mid by blast
qed


theorem blank_line_entry_witness:
  "render [plain_token PARAGRAPH (ustr ''x''), plain_token PARAGRAPH_BREAK [],
           plain_token PARAGRAPH (ustr ''y'')] = Inr (ustr ''x\<newline>\<newline>\<newline>y'')"
proof -
  have t: "tk_type (plain_token PARAGRAPH_BREAK []) = Some HRULE \<or>
           tk_type (plain_token PARAGRAPH_BREAK []) = Some PARAGRAPH_BREAK"
    by (simp add: plain_token_def)
  have a: "render [plain_token PARAGRAPH (ustr ''x'')] = Inr (ustr ''x'')"
    by code_simp
  have b: "render [plain_token PARAGRAPH (ustr ''y'')] = Inr (ustr ''y'')"
    by code_simp
  show ?thesis
    using blank_line_entry [OF t, of Map.empty "[plain_token PARAGRAPH (ustr ''x'')]"
        "[plain_token PARAGRAPH (ustr ''y'')]"] a b
    by (simp add: ustr_def)
qed

text \<open>
  The claim as stated fails on a rule between two paragraphs: the output has two empty
  lines between them, not one.
\<close>

theorem one_blank_line_counterexample:
  "render [plain_token PARAGRAPH (ustr ''a''), (plain_token HRULE [])\<lparr>tk_value := None\<rparr>,
           plain_token PARAGRAPH (ustr ''b'')] = Inr (ustr ''a\<newline>\<newline>\<newline>b'') \<and>
   split_on 10 (ustr ''a\<newline>\<newline>\<newline>b'') = [ustr ''a'', [], [], ustr ''b''] \<and>
   render [plain_token PARAGRAPH (ustr ''a''), plain_token PARAGRAPH (ustr ''b'')]
     = Inr (ustr ''a\<newline>b'')"
  by code_simp

section \<open>Matching with the patterns of the renderer\<close>

lemma takeWhile_all: "\<forall>x\<in>set xs. P x \<Longrightarrow> takeWhile P xs = xs"
  by (induction xs) auto

lemma takeWhile_run:
  "\<forall>x\<in>set xs. P x \<Longrightarrow> ys = [] \<or> \<not> P (hd ys) \<Longrightarrow> takeWhile P (xs @ ys) = xs"
  by (cases ys) (simp_all add: takeWhile_all takeWhile_append2)

lemma counts_greedy:
  "lo \<le> length (takeWhile c t) \<Longrightarrow>
   counts c (Greedy lo None) t = length (takeWhile c t) # rev [lo ..< length (takeWhile c t)]"
  by (simp add: counts_def upper_def Let_def)

lemma counts_exact:
  "n \<le> length (takeWhile c t) \<Longrightarrow> counts c (Greedy n (Some n)) t = [n]"
  by (simp add: counts_def upper_def min_absorb1)

lemma counts_exact_none:
  "length (takeWhile c t) < n \<Longrightarrow> counts c (Greedy n (Some n)) t = []"
  by (simp add: counts_def upper_def)

lemma rmatch_Rep_first:
  "counts c q (drop p s) = k # ks \<Longrightarrow> rmatch r s (p + k) = Some y \<Longrightarrow>
   rmatch (Rep c q # r) s p = Some y"
  by simp

lemma rmatch_quote_list:
  assumes ws1: "\<forall>x\<in>set ws1. isspace x" and c: "c = 45 \<or> c = 42"
    and ws2: "ws2 \<noteq> []" "\<forall>x\<in>set ws2. isspace x"
    and rest: "rest = [] \<or> \<not> isspace (hd rest)"
  shows "rmatch pat_quote_list (ws1 @ c # ws2 @ rest) 0 =
           Some ([length ws1, Suc (length ws1), Suc (length ws1) + length ws2,
                  Suc (length ws1) + length ws2 + length (takeWhile is_dot rest)],
                 Suc (length ws1) + length ws2 + length (takeWhile is_dot rest))"
proof -
  define s where "s = ws1 @ c # ws2 @ rest"
  define p1 where "p1 = length ws1"
  define p2 where "p2 = p1 + 1"
  define p3 where "p3 = p2 + length ws2"
  define n where "n = length (takeWhile is_dot rest)"
  have nsp: "\<not> isspace c"
    using c by (auto simp: isspace_def)
  have d3: "drop p3 s = rest"
    by (simp add: s_def p1_def p2_def p3_def)
  have c3: "counts is_dot (Greedy 0 None) (drop p3 s) = n # rev [0 ..< n]"
    unfolding d3 n_def by (rule counts_greedy) simp
  have m4: "rmatch [Rep is_dot (Greedy 0 None), Mark] s p3 = Some ([p3 + n], p3 + n)"
    by (rule rmatch_Rep_first [OF c3]) simp
  have d2: "drop p2 s = ws2 @ rest"
    by (simp add: s_def p1_def p2_def)
  have run2: "takeWhile isspace (ws2 @ rest) = ws2"
    using ws2(2) rest by (rule takeWhile_run)
  have c2: "counts isspace (Greedy 1 None) (drop p2 s) = length ws2 # rev [1 ..< length ws2]"
    unfolding d2 using counts_greedy [of 1 isspace "ws2 @ rest"] ws2(1)
    by (simp add: run2 Suc_le_eq)
  have m3: "rmatch [Rep isspace (Greedy 1 None), Mark, Rep is_dot (Greedy 0 None), Mark] s p2
              = Some ([p3, p3 + n], p3 + n)"
    by (rule rmatch_Rep_first [OF c2]) (simp only: p3_def [symmetric] rmatch.simps(2) m4 option.map prod.case)
  have d1: "drop p1 s = c # ws2 @ rest"
    by (simp add: s_def p1_def)
  have c1: "counts is_dash_star (Greedy 1 (Some 1)) (drop p1 s) = [1]"
    unfolding d1 using c by (intro counts_exact) (auto simp: is_dash_star_def)
  have m2: "rmatch [Rep is_dash_star (Greedy 1 (Some 1)), Mark, Rep isspace (Greedy 1 None), Mark,
                    Rep is_dot (Greedy 0 None), Mark] s p1
              = Some ([p2, p3, p3 + n], p3 + n)"
    by (rule rmatch_Rep_first [OF c1]) (simp only: p2_def [symmetric] rmatch.simps(2) m3 option.map prod.case)
  have run0: "takeWhile isspace s = ws1"
    unfolding s_def using ws1 nsp by (intro takeWhile_run) simp_all
  have c0: "counts isspace (Greedy 0 None) (drop 0 s) = p1 # rev [0 ..< p1]"
    using counts_greedy [of 0 isspace s] by (simp add: run0 p1_def)
  have m1: "rmatch [Rep isspace (Greedy 0 None), Mark, Rep is_dash_star (Greedy 1 (Some 1)), Mark,
                    Rep isspace (Greedy 1 None), Mark, Rep is_dot (Greedy 0 None), Mark] s 0
              = Some ([p1, p2, p3, p3 + n], p3 + n)"
    by (rule rmatch_Rep_first [OF c0]) (simp only: add_0 rmatch.simps(2) m2 option.map prod.case)
  have "rmatch pat_quote_list s 0 = Some ([p1, p2, p3, p3 + n], p3 + n)"
    by (simp only: pat_quote_list_def rmatch.simps(3) m1 if_True simp_thms)
  then show ?thesis
    by (simp add: s_def p1_def p2_def p3_def n_def)
qed

lemma counts_lazy:
  "counts c (Lazy lo None) t = [lo ..< Suc (length (takeWhile c t))]"
  by (simp add: counts_def upper_def Let_def)

lemma first_some_None: "\<forall>x\<in>set xs. f x = None \<Longrightarrow> first_some (map f xs) = None"
  by (induction xs) simp_all

lemma first_some_skip:
  "\<forall>x\<in>set xs. f x = None \<Longrightarrow> first_some (map f (xs @ ys)) = first_some (map f ys)"
  by (induction xs) simp_all

lemma first_some_exists:
  "x \<in> set xs \<Longrightarrow> f x \<noteq> None \<Longrightarrow> first_some (map f xs) \<noteq> None"
proof (induction xs)
  case Nil
  then show ?case by simp
next
  case (Cons a xs)
  then show ?case by (cases "f a") auto
qed

lemma rmatch_Rep_none: "counts c q (drop p s) = [] \<Longrightarrow> rmatch (Rep c q # r) s p = None"
  by simp

lemma rmatch_wrapped_none:
  "length (takeWhile is_star (drop i s)) < n \<Longrightarrow> rmatch (pat_wrapped n) s i = None"
  unfolding pat_wrapped_def by (rule rmatch_Rep_none) (rule counts_exact_none)

lemma takeWhile_not_hd: "t = [] \<or> \<not> P (hd t) \<Longrightarrow> takeWhile P t = []"
  by (cases t) auto

lemma rmatch_closing_none:
  "t = [] \<or> \<not> is_star (hd t) \<Longrightarrow> drop q s = t \<Longrightarrow> 0 < n \<Longrightarrow>
   rmatch (Rep is_star (Greedy n (Some n)) # r) s q = None"
  by (rule rmatch_Rep_none) (simp add: counts_exact_none takeWhile_not_hd)

lemma takeWhile_prefix_len:
  "\<forall>x\<in>set xs. P x \<Longrightarrow> length xs \<le> length (takeWhile P (xs @ ys))"
  by (induction xs) simp_all

lemma rmatch_wrapped_hit:
  assumes inner: "inner \<noteq> []" "\<forall>x\<in>set inner. x \<noteq> 42 \<and> x \<noteq> 10" and n: "0 < n"
  shows "rmatch (pat_wrapped n) (pre @ replicate n 42 @ inner @ replicate n 42 @ post) (length pre)
           = Some ([length pre + n, length pre + n + length inner],
                   length pre + n + length inner + n)"
proof -
  define s where "s = pre @ replicate n 42 @ inner @ replicate n 42 @ post"
  define p where "p = length pre + n"
  define q where "q = p + length inner"
  have dq: "drop q s = replicate n 42 @ post"
    by (simp add: s_def p_def q_def)
  have "n \<le> length (takeWhile is_star (replicate n 42 @ post))"
    using takeWhile_prefix_len [of "replicate n 42" is_star post] by (simp add: is_star_def)
  then have cq: "counts is_star (Greedy n (Some n)) (drop q s) = [n]"
    unfolding dq by (rule counts_exact)
  have close: "rmatch [Mark, Rep is_star (Greedy n (Some n))] s q = Some ([q], q + n)"
    by (simp add: cq del: rmatch.simps(6)) (simp add: cq)
  have early: "rmatch [Mark, Rep is_star (Greedy n (Some n))] s (p + k) = None"
    if "k < length inner" for k
  proof -
    have "drop (p + k) s = drop k inner @ replicate n 42 @ post"
      using that by (simp add: s_def p_def)
    moreover have "\<not> is_star (hd (drop k inner @ replicate n 42 @ post))"
      using that inner(2) by (simp add: hd_append hd_drop_conv_nth is_star_def)
    ultimately have "rmatch (Rep is_star (Greedy n (Some n)) # []) s (p + k) = None"
      using n by (intro rmatch_closing_none [where t = "drop k inner @ replicate n 42 @ post"]) simp_all
    then show ?thesis
      by (simp del: rmatch.simps(6))
  qed
  have dp: "drop p s = inner @ replicate n 42 @ post"
    by (simp add: s_def p_def)
  define run where "run = length (takeWhile is_dot (drop p s))"
  have run: "length inner \<le> run"
    unfolding run_def dp using inner(2) takeWhile_prefix_len [of inner is_dot]
    by (simp add: is_dot_def)
  have split: "[1 ..< Suc run] = [1 ..< length inner] @ length inner # [Suc (length inner) ..< Suc run]"
  proof -
    have "1 \<le> length inner" using inner(1) by (cases inner) simp_all
    then have "[1 ..< Suc run] = [1 ..< length inner] @ [length inner ..< Suc run]"
      using run by (metis le_SucI upt_add_eq_append le_add_diff_inverse)
    moreover have "[length inner ..< Suc run] = length inner # [Suc (length inner) ..< Suc run]"
      using run by (simp add: upt_conv_Cons)
    ultimately show ?thesis by simp
  qed
  have lazy: "rmatch [Rep is_dot (Lazy 1 None), Mark, Rep is_star (Greedy n (Some n))] s p
                = Some ([q], q + n)"
  proof -
    have "rmatch [Rep is_dot (Lazy 1 None), Mark, Rep is_star (Greedy n (Some n))] s p
            = first_some (map (\<lambda>k. rmatch [Mark, Rep is_star (Greedy n (Some n))] s (p + k))
                ([1 ..< length inner] @ length inner # [Suc (length inner) ..< Suc run]))"
      by (simp only: rmatch.simps(6) counts_lazy run_def [symmetric] split)
    also have "\<dots> = first_some (map (\<lambda>k. rmatch [Mark, Rep is_star (Greedy n (Some n))] s (p + k))
                (length inner # [Suc (length inner) ..< Suc run]))"
      by (rule first_some_skip) (simp add: early del: rmatch.simps)
    also have "\<dots> = Some ([q], q + n)"
      using close by (simp add: q_def del: rmatch.simps)
    finally show ?thesis .
  qed
  have d0: "drop (length pre) s = replicate n 42 @ inner @ replicate n 42 @ post"
    by (simp add: s_def)
  have "n \<le> length (takeWhile is_star (replicate n 42 @ inner @ replicate n 42 @ post))"
    using takeWhile_prefix_len [of "replicate n 42" is_star] by (simp add: is_star_def)
  then have c0: "counts is_star (Greedy n (Some n)) (drop (length pre) s) = [n]"
    unfolding d0 by (rule counts_exact)
  have "rmatch (pat_wrapped n) s (length pre) = Some ([p, q], q + n)"
    unfolding pat_wrapped_def
    by (rule rmatch_Rep_first [OF c0])
       (simp only: p_def [symmetric] rmatch.simps(2) lazy option.map prod.case)
  then show ?thesis
    by (simp add: s_def p_def q_def)
qed

section \<open>Block quotes\<close>

lemma quote_line_bullet:
  assumes "\<forall>x\<in>set ws1. isspace x" and "c = 45 \<or> c = 42"
    and "ws2 \<noteq> []" and "\<forall>x\<in>set ws2. isspace x"
    and "rest = [] \<or> \<not> isspace (hd rest)"
  shows "quote_line prefix spaces (ws1 @ c # ws2 @ rest) =
           prefix @ [32] @ quote_bullet @ [32] @ takeWhile (\<lambda>x. x \<noteq> 10) rest"
proof -
  have d: "is_dot = (\<lambda>x. x \<noteq> 10)"
    by (rule ext) (simp add: is_dot_def)
  have "take (length (takeWhile is_dot rest)) rest = takeWhile is_dot rest"
    by (metis append_eq_conv_conj takeWhile_dropWhile_id)
  then show ?thesis
    unfolding quote_line_def re_match_def rmatch_quote_list [OF assms]
    by (simp add: group_def d)
qed

text \<open>
  Claim C1. For a BLOCK_QUOTE token whose value is a list item, the claim has \<open>render\<close>
  emit the quote prefix, a space, the bullet glyph U+2022, a space and the content, and so
  the line made of two greater-than signs, a space, U+2022 and \<open> sub item\<close> for level 2
  and the value \<open>- sub item\<close>. The code does not: the string literal of line 51 of the
  source is not the bullet but the three code points U+00E2, U+20AC, U+00A2, the bytes of
  the bullet's UTF-8 encoding read in a one-byte code page. The prefix, the spaces and the
  content are as claimed. The theorem evaluates \<open>render\<close> on the example.
\<close>

theorem quote_bullet_glyph:
  "render [(plain_token BLOCK_QUOTE (ustr ''- sub item''))\<lparr>tk_level := Some 2\<rparr>]
     = Inr (ustr ''>> '' @ [226, 8364, 162] @ ustr '' sub item'') \<and>
   render [(plain_token BLOCK_QUOTE (ustr ''- sub item''))\<lparr>tk_level := Some 2\<rparr>]
     \<noteq> Inr (ustr ''>> '' @ [8226] @ ustr '' sub item'')"
  by code_simp

section \<open>Headers with embedded emphasis\<close>

lemma re_sub_at_miss:
  "i < length s \<Longrightarrow> rmatch pat s i = None \<Longrightarrow>
   re_sub_at pat repl s i = s ! i # re_sub_at pat repl s (Suc i)"
  by (subst re_sub_at.simps) simp

lemma re_sub_at_end:
  "rmatch pat s (length s) = None \<Longrightarrow> re_sub_at pat repl s (length s) = []"
  by (subst re_sub_at.simps) simp

lemma re_sub_at_hit:
  "rmatch pat s i = Some (ms, e) \<Longrightarrow> i < e \<Longrightarrow> i \<le> length s \<Longrightarrow>
   re_sub_at pat repl s i = repl s ms @ re_sub_at pat repl s e"
  by (subst re_sub_at.simps) simp

lemma re_sub_at_copy:
  "\<forall>j. i \<le> j \<and> j < m \<longrightarrow> rmatch pat s j = None \<Longrightarrow> i \<le> m \<Longrightarrow> m \<le> length s \<Longrightarrow>
   re_sub_at pat repl s i = take (m - i) (drop i s) @ re_sub_at pat repl s m"
proof (induction "m - i" arbitrary: i)
  case 0
  then show ?case by simp
next
  case (Suc d)
  then have i: "i < m" "i < length s" and none: "rmatch pat s i = None"
    by auto
  have "re_sub_at pat repl s (Suc i) = take (m - Suc i) (drop (Suc i) s) @ re_sub_at pat repl s m"
    using Suc by (intro Suc.hyps(1)) auto
  moreover have "take (m - i) (drop i s) = s ! i # take (m - Suc i) (drop (Suc i) s)"
  proof -
    have "m - i = Suc (m - Suc i)" using i(1) by simp
    moreover have "drop i s = s ! i # drop (Suc i) s"
      using i(2) by (simp add: Cons_nth_drop_Suc)
    ultimately show ?thesis by simp
  qed
  ultimately show ?case
    using re_sub_at_miss [OF i(2) none, of repl] by simp
qed

lemma rmatch_wrapped_no_star:
  assumes "i \<le> length s" and "i < length s \<longrightarrow> s ! i \<noteq> 42" and "0 < n"
  shows "rmatch (pat_wrapped n) s i = None"
proof -
  have "drop i s = [] \<or> \<not> is_star (hd (drop i s))"
    using assms(1,2) by (cases "i < length s") (simp_all add: hd_drop_conv_nth is_star_def)
  then have "takeWhile is_star (drop i s) = []"
    by (rule takeWhile_not_hd)
  then show ?thesis
    using assms(3) by (intro rmatch_wrapped_none) simp
qed

lemma re_sub_at_plain:
  assumes "\<forall>x\<in>set post. x \<noteq> 42" and "0 < n"
  shows "re_sub_at (pat_wrapped n) repl (seen @ post) (length seen) = post"
proof -
  let ?s = "seen @ post"
  have "\<forall>j. length seen \<le> j \<and> j < length ?s \<longrightarrow> rmatch (pat_wrapped n) ?s j = None"
  proof (intro allI impI)
    fix j assume j: "length seen \<le> j \<and> j < length ?s"
    then have "?s ! j = post ! (j - length seen)" "j - length seen < length post"
      by (auto simp: nth_append)
    with assms(1) have "?s ! j \<noteq> 42"
      by (metis nth_mem)
    with j assms(2) show "rmatch (pat_wrapped n) ?s j = None"
      by (intro rmatch_wrapped_no_star) simp_all
  qed
  then have "re_sub_at (pat_wrapped n) repl ?s (length seen)
               = take (length ?s - length seen) (drop (length seen) ?s) @
                 re_sub_at (pat_wrapped n) repl ?s (length ?s)"
    by (intro re_sub_at_copy) simp_all
  moreover have "re_sub_at (pat_wrapped n) repl ?s (length ?s) = []"
    using assms(2) by (intro re_sub_at_end rmatch_wrapped_no_star) simp_all
  ultimately show ?thesis by simp
qed

lemma re_sub_at_span:
  assumes a: "\<forall>x\<in>set a. x \<noteq> 42" and b: "b \<noteq> []" "\<forall>x\<in>set b. x \<noteq> 42 \<and> x \<noteq> 10"
    and n: "0 < n"
  shows "re_sub_at (pat_wrapped n) repl_group1
           (seen @ a @ replicate n 42 @ b @ replicate n 42 @ rest) (length seen)
         = a @ b @ re_sub_at (pat_wrapped n) repl_group1
                     (seen @ a @ replicate n 42 @ b @ replicate n 42 @ rest)
                     (length (seen @ a @ replicate n 42 @ b @ replicate n 42))"
proof -
  define s where "s = seen @ a @ replicate n 42 @ b @ replicate n 42 @ rest"
  define p where "p = length (seen @ a)"
  have s': "s = (seen @ a) @ replicate n 42 @ b @ replicate n 42 @ rest"
    by (simp add: s_def)
  have "\<forall>j. length seen \<le> j \<and> j < p \<longrightarrow> rmatch (pat_wrapped n) s j = None"
  proof (intro allI impI)
    fix j assume j: "length seen \<le> j \<and> j < p"
    then have "s ! j = a ! (j - length seen)" "j - length seen < length a"
      by (auto simp: s_def p_def nth_append)
    with a have "s ! j \<noteq> 42"
      by (metis nth_mem)
    moreover have "j \<le> length s"
      using j by (simp add: s_def p_def)
    ultimately show "rmatch (pat_wrapped n) s j = None"
      using n by (intro rmatch_wrapped_no_star) simp_all
  qed
  then have copy: "re_sub_at (pat_wrapped n) repl_group1 s (length seen)
               = take (p - length seen) (drop (length seen) s) @
                 re_sub_at (pat_wrapped n) repl_group1 s p"
    by (intro re_sub_at_copy) (simp_all add: s_def p_def)
  have ta: "take (p - length seen) (drop (length seen) s) = a"
    by (simp add: s_def p_def)
  have hit: "rmatch (pat_wrapped n) s p = Some ([p + n, p + n + length b], p + n + length b + n)"
    unfolding s' p_def using b n by (rule rmatch_wrapped_hit)
  have "re_sub_at (pat_wrapped n) repl_group1 s p
          = repl_group1 s [p + n, p + n + length b] @
            re_sub_at (pat_wrapped n) repl_group1 s (p + n + length b + n)"
    using n by (intro re_sub_at_hit [OF hit]) (simp_all add: s_def p_def)
  moreover have "repl_group1 s [p + n, p + n + length b] = b"
    by (simp add: repl_group1_def group_def s_def p_def)
  moreover have "p + n + length b + n = length (seen @ a @ replicate n 42 @ b @ replicate n 42)"
    by (simp add: p_def)
  ultimately show ?thesis
    using copy ta unfolding s_def by simp
qed

lemma re_sub_at_spans:
  assumes "\<forall>(a, b)\<in>set spans. (\<forall>x\<in>set a. x \<noteq> 42) \<and> b \<noteq> [] \<and> (\<forall>x\<in>set b. x \<noteq> 42 \<and> x \<noteq> 10)"
    and "\<forall>x\<in>set post. x \<noteq> 42" and "0 < n"
  shows "re_sub_at (pat_wrapped n) repl_group1 (seen @ spans_raw n spans post) (length seen)
           = spans_text spans post"
  using assms(1)
proof (induction spans arbitrary: seen)
  case Nil
  show ?case
    using re_sub_at_plain [OF assms(2,3)] by (simp add: spans_raw_def spans_text_def)
next
  case (Cons ab spans)
  obtain a b where ab: "ab = (a, b)" by (cases ab)
  let ?seen = "seen @ a @ replicate n 42 @ b @ replicate n 42"
  have raw: "seen @ spans_raw n (ab # spans) post
               = seen @ a @ replicate n 42 @ b @ replicate n 42 @ spans_raw n spans post"
    by (simp add: spans_raw_def ab)
  have raw': "seen @ spans_raw n (ab # spans) post = ?seen @ spans_raw n spans post"
    by (simp add: spans_raw_def ab)
  have "re_sub_at (pat_wrapped n) repl_group1 (seen @ spans_raw n (ab # spans) post) (length seen)
          = a @ b @ re_sub_at (pat_wrapped n) repl_group1
                      (seen @ spans_raw n (ab # spans) post) (length ?seen)"
    unfolding raw using Cons.prems assms(3) by (intro re_sub_at_span) (auto simp: ab)
  also have "re_sub_at (pat_wrapped n) repl_group1
               (seen @ spans_raw n (ab # spans) post) (length ?seen) = spans_text spans post"
    unfolding raw' using Cons.prems by (intro Cons.IH) simp
  finally show ?case
    by (simp add: spans_text_def ab)
qed

lemma rmatch_tail_none: "\<forall>q. rmatch r s q = None \<Longrightarrow> \<forall>p. rmatch (x # r) s p = None"
  by (cases x) (simp_all add: first_some_None)

lemma takeWhile_full: "length (takeWhile P xs) = length xs \<Longrightarrow> \<forall>x\<in>set xs. P x"
proof (induction xs)
  case Nil
  then show ?case by simp
next
  case (Cons x xs)
  then show ?case by (cases "P x") simp_all
qed

lemma rmatch_closing_eos_none:
  assumes "s \<noteq> []" and "last s \<noteq> 42" and "0 < m"
  shows "rmatch [Rep is_star (Greedy m (Some m)), Eos] s q = None"
proof (cases "m \<le> length (takeWhile is_star (drop q s))")
  case False
  then show ?thesis
    by (intro rmatch_Rep_none counts_exact_none) simp
next
  case True
  have "q + m \<noteq> length s"
  proof
    assume e: "q + m = length s"
    then have len: "length (drop q s) = m" by simp
    have "length (takeWhile is_star (drop q s)) \<le> length (drop q s)"
      by (rule length_takeWhile_le)
    with True len have "length (takeWhile is_star (drop q s)) = length (drop q s)"
      by simp
    then have all: "\<forall>x\<in>set (drop q s). is_star x"
      by (rule takeWhile_full)
    have ne: "drop q s \<noteq> []" using len assms(3) by auto
    then have "last (drop q s) = last s"
      using e assms(3) by (simp add: last_drop)
    moreover have "last (drop q s) \<in> set (drop q s)"
      using ne by (rule last_in_set)
    ultimately show False
      using all assms(2) by (auto simp: is_star_def)
  qed
  then show ?thesis
    by (simp add: counts_exact [OF True])
qed

lemma re_fullmatch_wrapped_none:
  assumes "s \<noteq> []" and "hd s \<noteq> 42 \<or> last s \<noteq> 42" and "0 < m"
  shows "re_fullmatch (pat_wrapped m) s = None"
proof (cases "hd s \<noteq> 42")
  case True
  then have "takeWhile is_star (drop 0 s) = []"
    by (intro takeWhile_not_hd) (simp add: is_star_def)
  then show ?thesis
    unfolding re_fullmatch_def pat_wrapped_def using assms(3)
    by (simp add: counts_exact_none)
next
  case False
  with assms(2) have "last s \<noteq> 42" by simp
  then have "\<forall>q. rmatch [Rep is_star (Greedy m (Some m)), Eos] s q = None"
    using assms(1,3) by (intro allI rmatch_closing_eos_none)
  then have "\<forall>q. rmatch [Mark, Rep is_star (Greedy m (Some m)), Eos] s q = None"
    by (rule rmatch_tail_none)
  then have "\<forall>q. rmatch [Rep is_dot (Lazy 1 None), Mark, Rep is_star (Greedy m (Some m)), Eos] s q = None"
    by (rule rmatch_tail_none)
  then have "\<forall>q. rmatch [Mark, Rep is_dot (Lazy 1 None), Mark, Rep is_star (Greedy m (Some m)), Eos] s q = None"
    by (rule rmatch_tail_none)
  then have "rmatch (Rep is_star (Greedy m (Some m)) #
               [Mark, Rep is_dot (Lazy 1 None), Mark, Rep is_star (Greedy m (Some m)), Eos]) s 0 = None"
    using rmatch_tail_none by blast
  then show ?thesis
    by (simp add: re_fullmatch_def pat_wrapped_def del: rmatch.simps)
qed

lemma re_search_none:
  "\<forall>i. length (takeWhile is_star (drop i s)) < m \<Longrightarrow> re_search (pat_wrapped m) s = None"
  unfolding re_search_def by (intro first_some_None) (simp add: rmatch_wrapped_none)

lemma re_search_some:
  "rmatch pat s i = Some r \<Longrightarrow> i \<le> length s \<Longrightarrow> re_search pat s \<noteq> None"
  unfolding re_search_def by (rule first_some_exists [where x = i]) auto

lemma run_skip:
  "\<forall>x\<in>set a. \<not> P x \<Longrightarrow> \<forall>i. length (takeWhile P (drop i b)) \<le> n \<Longrightarrow>
   length (takeWhile P (drop i (a @ b))) \<le> n"
proof (induction a arbitrary: i)
  case Nil
  then show ?case by simp
next
  case (Cons x a)
  then show ?case by (cases i) simp_all
qed

lemma run_block:
  "\<forall>x\<in>set a. P x \<Longrightarrow> length a \<le> n \<Longrightarrow> b = [] \<or> \<not> P (hd b) \<Longrightarrow>
   \<forall>i. length (takeWhile P (drop i b)) \<le> n \<Longrightarrow>
   length (takeWhile P (drop i (a @ b))) \<le> n"
proof (induction a arbitrary: i)
  case Nil
  then show ?case by simp
next
  case (Cons x a)
  show ?case
  proof (cases i)
    case 0
    have "takeWhile P ((x # a) @ b) = x # a"
      using Cons.prems(1,3) by (intro takeWhile_run) simp_all
    with 0 Cons.prems(2) show ?thesis by simp
  next
    case (Suc j)
    with Cons show ?thesis by simp
  qed
qed

lemma run_span:
  assumes r: "\<forall>i. length (takeWhile is_star (drop i r)) \<le> n" "r = [] \<or> \<not> is_star (hd r)"
    and a: "\<forall>x\<in>set a. x \<noteq> 42" and b: "b \<noteq> []" "\<forall>x\<in>set b. x \<noteq> 42 \<and> x \<noteq> 10"
  shows "\<forall>i. length (takeWhile is_star (drop i (a @ replicate n 42 @ b @ replicate n 42 @ r))) \<le> n"
proof -
  have stars: "\<forall>x\<in>set (replicate n 42). is_star x" "length (replicate n (42::int)) \<le> n"
    by (simp_all add: is_star_def)
  have r1: "\<forall>i. length (takeWhile is_star (drop i (replicate n 42 @ r))) \<le> n"
    using run_block [OF stars r(2,1)] by blast
  have nb: "\<forall>x\<in>set b. \<not> is_star x"
    using b(2) by (simp add: is_star_def)
  have r2: "\<forall>i. length (takeWhile is_star (drop i (b @ replicate n 42 @ r))) \<le> n"
    using run_skip [OF nb r1] by blast
  have "\<not> is_star (hd (b @ replicate n 42 @ r))"
    using b by (cases b) (simp_all add: is_star_def)
  then have h: "b @ replicate n 42 @ r = [] \<or> \<not> is_star (hd (b @ replicate n 42 @ r))"
    by simp
  have r3: "\<forall>i. length (takeWhile is_star (drop i (replicate n 42 @ b @ replicate n 42 @ r))) \<le> n"
    using run_block [OF stars h r2] by blast
  have na: "\<forall>x\<in>set a. \<not> is_star x"
    using a by (simp add: is_star_def)
  show ?thesis
    using run_skip [OF na r3] by blast
qed

lemma run_plain:
  assumes "\<forall>x\<in>set post. x \<noteq> 42"
  shows "\<forall>i. length (takeWhile is_star (drop i post)) \<le> n"
  using run_skip [of post is_star "[]" n] assms by (simp add: is_star_def)

lemma run_tail_spans:
  assumes "\<forall>(a, b)\<in>set spans. (\<forall>x\<in>set a. x \<noteq> 42) \<and> b \<noteq> [] \<and> (\<forall>x\<in>set b. x \<noteq> 42 \<and> x \<noteq> 10)"
    and "\<forall>(a, b)\<in>set spans. a \<noteq> []" and "\<forall>x\<in>set post. x \<noteq> 42"
  shows "(\<forall>i. length (takeWhile is_star (drop i (spans_raw n spans post))) \<le> n) \<and>
         (spans_raw n spans post = [] \<or> \<not> is_star (hd (spans_raw n spans post)))"
  using assms(1,2)
proof (induction spans)
  case Nil
  have "post = [] \<or> \<not> is_star (hd post)"
    using assms(3) by (cases post) (simp_all add: is_star_def)
  then show ?case
    using run_plain [OF assms(3)] by (simp add: spans_raw_def)
next
  case (Cons ab spans)
  obtain a b where ab: "ab = (a, b)" by (cases ab)
  have raw: "spans_raw n (ab # spans) post
               = a @ replicate n 42 @ b @ replicate n 42 @ spans_raw n spans post"
    by (simp add: spans_raw_def ab)
  have ih: "(\<forall>i. length (takeWhile is_star (drop i (spans_raw n spans post))) \<le> n) \<and>
            (spans_raw n spans post = [] \<or> \<not> is_star (hd (spans_raw n spans post)))"
    using Cons.prems by (intro Cons.IH) simp_all
  have p: "\<forall>x\<in>set a. x \<noteq> 42" "b \<noteq> []" "\<forall>x\<in>set b. x \<noteq> 42 \<and> x \<noteq> 10" "a \<noteq> []"
    using Cons.prems by (auto simp: ab)
  have h: "\<not> is_star (hd (a @ replicate n 42 @ b @ replicate n 42 @ spans_raw n spans post))"
    using p(1,4) by (cases a) (simp_all add: is_star_def)
  have ih1: "\<forall>i. length (takeWhile is_star (drop i (spans_raw n spans post))) \<le> n"
    and ih2: "spans_raw n spans post = [] \<or> \<not> is_star (hd (spans_raw n spans post))"
    using ih by simp_all
  have "\<forall>i. length (takeWhile is_star
               (drop i (a @ replicate n 42 @ b @ replicate n 42 @ spans_raw n spans post))) \<le> n"
    using ih1 ih2 p(1,2,3) by (rule run_span)
  with h show ?case
    unfolding raw by (intro conjI disjI2)
qed

lemma run_spans:
  assumes "\<forall>(a, b)\<in>set spans. (\<forall>x\<in>set a. x \<noteq> 42) \<and> b \<noteq> [] \<and> (\<forall>x\<in>set b. x \<noteq> 42 \<and> x \<noteq> 10)"
    and "\<forall>(a, b)\<in>set (tl spans). a \<noteq> []" and "\<forall>x\<in>set post. x \<noteq> 42"
  shows "length (takeWhile is_star (drop i (spans_raw n spans post))) \<le> n"
proof (cases spans)
  case Nil
  then show ?thesis
    using run_plain [OF assms(3)] by (simp add: spans_raw_def)
next
  case (Cons ab rest)
  obtain a b where ab: "ab = (a, b)" by (cases ab)
  have raw: "spans_raw n spans post
               = a @ replicate n 42 @ b @ replicate n 42 @ spans_raw n rest post"
    by (simp add: spans_raw_def ab Cons)
  have t: "(\<forall>i. length (takeWhile is_star (drop i (spans_raw n rest post))) \<le> n) \<and>
        (spans_raw n rest post = [] \<or> \<not> is_star (hd (spans_raw n rest post)))"
    using assms by (intro run_tail_spans) (simp_all add: Cons)
  have t1: "\<forall>i. length (takeWhile is_star (drop i (spans_raw n rest post))) \<le> n"
    and t2: "spans_raw n rest post = [] \<or> \<not> is_star (hd (spans_raw n rest post))"
    using t by simp_all
  have p: "\<forall>x\<in>set a. x \<noteq> 42" "b \<noteq> []" "\<forall>x\<in>set b. x \<noteq> 42 \<and> x \<noteq> 10"
    using assms(1) by (auto simp: ab Cons)
  have "\<forall>i. length (takeWhile is_star
               (drop i (a @ replicate n 42 @ b @ replicate n 42 @ spans_raw n rest post))) \<le> n"
    using t1 t2 p by (rule run_span)
  then show ?thesis
    unfolding raw by (rule spec)
qed

lemma header_line_spans:
  assumes n: "n \<in> {1, 2, 3}" and ne: "spans \<noteq> []"
    and sp: "\<forall>(a, b)\<in>set spans. (\<forall>x\<in>set a. x \<noteq> 42) \<and> b \<noteq> [] \<and> (\<forall>x\<in>set b. x \<noteq> 42 \<and> x \<noteq> 10)"
    and tl: "\<forall>(a, b)\<in>set (tl spans). a \<noteq> []"
    and post: "\<forall>x\<in>set post. x \<noteq> 42"
    and open_end: "fst (hd spans) \<noteq> [] \<or> post \<noteq> []"
  shows "header_line (spans_raw n spans post) v =
           (if n = 2 then ustr ''*'' else ustr ''*_'') @ spans_text spans post @
           (if n = 2 then ustr ''*'' else ustr ''_*'')"
proof -
  let ?raw = "spans_raw n spans post"
  obtain a b rest where spans: "spans = (a, b) # rest"
    using ne by (cases spans) auto
  have p: "\<forall>x\<in>set a. x \<noteq> 42" "b \<noteq> []" "\<forall>x\<in>set b. x \<noteq> 42 \<and> x \<noteq> 10"
    using sp by (auto simp: spans)
  have raw: "?raw = a @ replicate n 42 @ b @ replicate n 42 @ spans_raw n rest post"
    by (simp add: spans_raw_def spans)
  have n0: "0 < n" using n by auto
  have raw_ne: "?raw \<noteq> []"
    using p(2) by (simp add: raw)
  have ends: "hd ?raw \<noteq> 42 \<or> last ?raw \<noteq> 42"
  proof (cases "a = []")
    case False
    then have "hd ?raw = hd a" by (simp add: raw)
    with False p(1) show ?thesis by (cases a) auto
  next
    case True
    with open_end have pne: "post \<noteq> []" by (simp add: spans)
    then have "last ?raw = last post" by (simp add: spans_raw_def)
    with pne post show ?thesis by (metis last_in_set)
  qed
  have full: "re_fullmatch (pat_wrapped m) ?raw = None" if "0 < m" for m
    using raw_ne ends that by (rule re_fullmatch_wrapped_none)
  have "rmatch (pat_wrapped n) ?raw (length a)
          = Some ([length a + n, length a + n + length b], length a + n + length b + n)"
    unfolding raw using p(2,3) n0 by (rule rmatch_wrapped_hit)
  then have found: "re_search (pat_wrapped n) ?raw \<noteq> None"
    by (rule re_search_some) (simp add: raw)
  have miss: "re_search (pat_wrapped m) ?raw = None" if "n < m" for m
  proof (rule re_search_none, rule allI)
    fix i
    have "length (takeWhile is_star (drop i ?raw)) \<le> n"
      using sp tl post by (rule run_spans)
    with that show "length (takeWhile is_star (drop i ?raw)) < m" by simp
  qed
  have sub: "re_sub (pat_wrapped n) repl_group1 ?raw = spans_text spans post"
    using re_sub_at_spans [OF sp post n0, of "[]"] by (simp add: re_sub_def)
  have f: "re_fullmatch (pat_wrapped 3) ?raw = None" "re_fullmatch (pat_wrapped 2) ?raw = None"
    "re_fullmatch (pat_wrapped 1) ?raw = None"
    using full [of 3] full [of 2] full [of 1] by simp_all
  have hl: "header_line ?raw v =
     (if re_search (pat_wrapped 3) ?raw \<noteq> None then
        ustr ''*_'' @ re_sub (pat_wrapped 3) repl_group1 ?raw @ ustr ''_*''
      else if re_search (pat_wrapped 2) ?raw \<noteq> None then
        ustr ''*'' @ re_sub (pat_wrapped 2) repl_group1 ?raw @ ustr ''*''
      else if re_search (pat_wrapped 1) ?raw \<noteq> None then
        ustr ''*_'' @ re_sub (pat_wrapped 1) repl_group1 ?raw @ ustr ''_*''
      else ustr ''*'' @ re_sub pat_stars repl_empty v @ ustr ''*'')"
    by (simp only: header_line_def f simp_thms if_False)
  from n consider "n = 3" | "n = 2" | "n = 1" by auto
  then show ?thesis
  proof cases
    case 1
    from found sub show ?thesis
      unfolding hl unfolding 1 by simp
  next
    case 2
    have "re_search (pat_wrapped 3) ?raw = None"
      using miss [of 3] 2 by simp
    with found sub show ?thesis
      unfolding hl unfolding 2 by simp
  next
    case 3
    have "re_search (pat_wrapped 3) ?raw = None" "re_search (pat_wrapped 2) ?raw = None"
      using miss [of 3] miss [of 2] 3 by simp_all
    with found sub show ?thesis
      unfolding hl unfolding 3 by simp
  qed
qed

text \<open>
  Claim C2, as amended. Let the raw text of a HEADER token be one or more spans of \<open>n\<close>
  asterisks (\<open>n\<close> is 1, 2 or 3) around a non-empty inner text, each after a text and the
  last followed by a text, no text holding an asterisk, no inner text a newline, the texts
  between two spans non-empty, and the raw text not wrapped as a whole (the first or the
  last text is not empty). Then \<open>render\<close> emits, after the indent spaces, the raw text
  with the asterisks of every span removed, bold and italic for 3 or 1 asterisks and bold
  for 2: the text outside the spans is kept, not discarded.
\<close>

theorem header_embedded_spans:
  assumes "tk_type t = Some HEADER" and "tk_value t = Some v"
    and "tk_raw t = Some (spans_raw n spans post)"
    and "n \<in> {1, 2, 3}" and "spans \<noteq> []"
    and "\<forall>(a, b)\<in>set spans.
           (\<forall>x\<in>set a. x \<noteq> 42) \<and> b \<noteq> [] \<and> (\<forall>x\<in>set b. x \<noteq> 42 \<and> x \<noteq> 10)"
    and "\<forall>(a, b)\<in>set (tl spans). a \<noteq> []"
    and "\<forall>x\<in>set post. x \<noteq> 42"
    and "fst (hd spans) \<noteq> [] \<or> post \<noteq> []"
  shows "render_token t cs =
           Inr (cs(get_indent t := None),
                replicate (nat (get_indent t)) 32 @
                (if n = 2 then ustr ''*'' else ustr ''*_'') @ spans_text spans post @
                (if n = 2 then ustr ''*'' else ustr ''_*''))"
  using assms(1-3) header_line_spans [OF assms(4-9), of v]
  by (simp add: render_token_def Let_def bookkeeping_def)

theorem header_embedded_spans_witness:
  "render_token
     ((plain_token HEADER (ustr ''x''))\<lparr>tk_raw := Some (ustr ''a **b** c, **d**!'')\<rparr>) Map.empty
   = Inr (Map.empty, ustr ''*a b c, d!*'')"
proof -
  let ?t = "(plain_token HEADER (ustr ''x''))\<lparr>tk_raw := Some (ustr ''a **b** c, **d**!'')\<rparr>"
  let ?spans = "[(ustr ''a '', ustr ''b''), (ustr '' c, '', ustr ''d'')]"
  have raw: "tk_raw ?t = Some (spans_raw 2 ?spans (ustr ''!''))"
    by (simp add: plain_token_def spans_raw_def ustr_def eval_nat_numeral)
  have "render_token ?t Map.empty =
          Inr (Map.empty(get_indent ?t := None),
               replicate (nat (get_indent ?t)) 32 @
               (if (2::nat) = 2 then ustr ''*'' else ustr ''*_'') @ spans_text ?spans (ustr ''!'') @
               (if (2::nat) = 2 then ustr ''*'' else ustr ''_*''))"
    by (rule header_embedded_spans [OF _ _ raw]) (simp_all add: plain_token_def ustr_def)
  then show ?thesis
    by (simp add: spans_text_def ustr_def plain_token_def get_indent_def)
qed

text \<open>
  The claim as stated fails on the raw text \<open>a **b** c\<close>: the entry is \<open>*a b c*\<close>, not
  \<open>*b*\<close>, since \<open>re.sub\<close> copies what no match covers.
\<close>

theorem header_first_span_counterexample:
  "render [(plain_token HEADER (ustr ''x''))\<lparr>tk_raw := Some (ustr ''a **b** c'')\<rparr>]
     = Inr (ustr ''*a b c*'') \<and>
   render [(plain_token HEADER (ustr ''x''))\<lparr>tk_raw := Some (ustr ''a **b** c'')\<rparr>]
     \<noteq> Inr (ustr ''*b*'')"
  by code_simp

end
